theory Spec2Isabelle
  imports Main
begin

section \<open>The AT-command register server (server.c)\<close>

text \<open>
  The server keeps a singly linked list of registers (id, value, bounds string) and
  answers one request string at a time. The embedding follows \<^verbatim>\<open>server.c\<close> function by
  function. C strings are \<open>string\<close>s (the characters before the terminating NUL); a
  pointer that may be \<^verbatim>\<open>NULL\<close> is an \<open>option\<close>; handing \<^verbatim>\<open>NULL\<close> to a library
  function that reads through it, and an \<^verbatim>\<open>atoi\<close> whose value does not fit an
  \<^verbatim>\<open>int\<close>, are error results. So is writing a string with its NUL past the end of a
  field of a register or of the buffers the id is built in (\<^verbatim>\<open>REGID_MAX\<close>,
  \<^verbatim>\<open>BOUNDS_MAX\<close>): the C code does not check these lengths, and what it does after such
  a write is undefined. The buffers of \<^verbatim>\<open>MAX_STRING\<close> bytes are not modelled: \<^verbatim>\<open>main\<close>
  reads at most \<^verbatim>\<open>MAX_REQ_SIZE\<close> bytes of a request and a stored bounds string is shorter
  than \<^verbatim>\<open>BOUNDS_MAX\<close>. The counter \<^verbatim>\<open>numofregs\<close> is an unbounded integer, and
  \<^verbatim>\<open>malloc\<close> is taken to succeed. What is written to the serial port is modelled as the
  C string handed to \<^verbatim>\<open>my_write\<close>.
\<close>

subsection \<open>Errors\<close>

datatype error = NullPointer | IntOverflow | BufferOverflow

definition bind_result :: "error + 'a \<Rightarrow> ('a \<Rightarrow> error + 'b) \<Rightarrow> error + 'b" where
  "bind_result r f = (case r of Inl e \<Rightarrow> Inl e | Inr x \<Rightarrow> f x)"

subsection \<open>The C library functions the server calls\<close>

definition INT_MAX :: int where
  "INT_MAX = 2147483647"

definition INT_MIN :: int where
  "INT_MIN = - 2147483648"

definition isspace :: "char \<Rightarrow> bool" where
  "isspace c = (c = CHR '' '' \<or> (9 \<le> (of_char c :: nat) \<and> (of_char c :: nat) \<le> 13))"

definition isdigit :: "char \<Rightarrow> bool" where
  "isdigit c = (48 \<le> (of_char c :: nat) \<and> (of_char c :: nat) \<le> 57)"

definition digit_value :: "char \<Rightarrow> int" where
  "digit_value c = int (of_char c) - 48"

definition digits_value :: "string \<Rightarrow> int" where
  "digits_value s = foldl (\<lambda>acc c. acc * 10 + digit_value c) 0 (takeWhile isdigit s)"

text \<open>
  The number \<^verbatim>\<open>atoi\<close> reads: white space is skipped, one sign is taken, then the longest
  run of decimal digits; no digits give 0.
\<close>

definition atoi_value :: "string \<Rightarrow> int" where
  "atoi_value s =
     (case dropWhile isspace s of
        [] \<Rightarrow> 0
      | c # cs \<Rightarrow>
          if c = CHR ''-'' then - digits_value cs
          else if c = CHR ''+'' then digits_value cs
          else digits_value (c # cs))"

definition atoi :: "string option \<Rightarrow> error + int" where
  "atoi p =
     (case p of
        None \<Rightarrow> Inl NullPointer
      | Some s \<Rightarrow>
          if INT_MIN \<le> atoi_value s \<and> atoi_value s \<le> INT_MAX then Inr (atoi_value s)
          else Inl IntOverflow)"

text \<open>
  \<^verbatim>\<open>strtok\<close>: leading delimiters are skipped; with nothing left the result is \<^verbatim>\<open>NULL\<close>;
  otherwise the token runs to the next delimiter, which is overwritten by NUL, and the
  scan position saved for the next call is just behind it. The saved position is passed
  explicitly: a call with \<^verbatim>\<open>NULL\<close> as its first argument scans from it.
\<close>

definition strtok_scan :: "string \<Rightarrow> string \<Rightarrow> string option \<times> string" where
  "strtok_scan s delim =
     (let s1 = dropWhile (\<lambda>c. c \<in> set delim) s
      in if s1 = [] then (None, [])
         else (Some (takeWhile (\<lambda>c. c \<notin> set delim) s1),
               drop 1 (dropWhile (\<lambda>c. c \<notin> set delim) s1)))"

definition strtok :: "string option \<Rightarrow> string \<Rightarrow> string \<Rightarrow> string option \<times> string" where
  "strtok str delim saved =
     strtok_scan (case str of Some s \<Rightarrow> s | None \<Rightarrow> saved) delim"

definition strncmp_eq :: "string \<Rightarrow> string \<Rightarrow> nat \<Rightarrow> bool" where
  "strncmp_eq s t n = (take n s = take n t)"

text \<open>\<^verbatim>\<open>sprintf\<close> with \<^verbatim>\<open>%d\<close>: the decimal digits, with a minus sign below zero.\<close>

definition digit_char :: "nat \<Rightarrow> char" where
  "digit_char d = ''0123456789'' ! d"

fun show_nat :: "nat \<Rightarrow> string" where
  "show_nat n = (if n < 10 then [digit_char n] else show_nat (n div 10) @ [digit_char (n mod 10)])"

declare show_nat.simps [simp del]

definition show_int :: "int \<Rightarrow> string" where
  "show_int i = (if i < 0 then CHR ''-'' # show_nat (nat (- i)) else show_nat (nat i))"

subsection \<open>The register list\<close>

record registers_t =
  regid :: string
  regvalue :: int
  bounds :: string

record server =
  regs :: "registers_t list"
  numofregs :: int

definition startup :: server where
  "startup = \<lparr>regs = [], numofregs = 0\<rparr>"

definition init_reglist :: "server \<Rightarrow> server" where
  "init_reglist s =
     \<lparr>regs = [\<lparr>regid = ''REG1'', regvalue = 0, bounds = ''0-16535''\<rparr>],
      numofregs = numofregs s + 1\<rparr>"

definition REGID_MAX :: nat where
  "REGID_MAX = 6"

definition BOUNDS_MAX :: nat where
  "BOUNDS_MAX = 20"

text \<open>
  \<^verbatim>\<open>add_register\<close> counts first and prints the new count into \<^verbatim>\<open>stringnum\<close>, appends
  it to \<^verbatim>\<open>REG\<close> in \<^verbatim>\<open>tempid\<close> and copies the id into the new register, all three of
  \<^verbatim>\<open>REGID_MAX\<close> bytes; it copies the bounds into the \<^verbatim>\<open>BOUNDS_MAX\<close> bytes of the
  register; then it walks from the head to the last node, and with no head the walk reads
  through \<^verbatim>\<open>NULL\<close>. A string fits an array when it is shorter than the array.
\<close>

definition add_register :: "int \<Rightarrow> string \<Rightarrow> server \<Rightarrow> error + server" where
  "add_register val bnds s =
     (let n = numofregs s + 1;
          stringnum = show_int n;
          tempid = ''REG'' @ stringnum;
          new = \<lparr>regid = tempid, regvalue = val, bounds = bnds\<rparr>
      in if REGID_MAX \<le> length stringnum then Inl BufferOverflow
         else if REGID_MAX \<le> length tempid then Inl BufferOverflow
         else if BOUNDS_MAX \<le> length bnds then Inl BufferOverflow
         else if regs s = [] then Inl NullPointer
         else Inr \<lparr>regs = regs s @ [new], numofregs = n\<rparr>)"

fun print_register :: "string \<Rightarrow> registers_t list \<Rightarrow> int" where
  "print_register targetid [] = - 1"
| "print_register targetid (r # rs) =
     (if regid r = targetid then regvalue r else print_register targetid rs)"

fun print_bounds :: "string \<Rightarrow> registers_t list \<Rightarrow> string option" where
  "print_bounds targetid [] = None"
| "print_bounds targetid (r # rs) =
     (if regid r = targetid then Some (bounds r) else print_bounds targetid rs)"

subsection \<open>The bounds check\<close>

text \<open>A call of \<^verbatim>\<open>strtok\<close> that returns a token moves the scan position forward.\<close>

lemma strtok_scan_shorter:
  "fst (strtok_scan s delim) \<noteq> None \<Longrightarrow> length (snd (strtok_scan s delim)) < length s"
proof -
  assume tok: "fst (strtok_scan s delim) \<noteq> None"
  define s1 where "s1 = dropWhile (\<lambda>c. c \<in> set delim) s"
  from tok have ne: "s1 \<noteq> []"
    by (auto simp: strtok_scan_def s1_def Let_def split: if_splits)
  have "length (dropWhile (\<lambda>c. c \<notin> set delim) s1) \<le> length s1"
    by (rule length_dropWhile_le)
  moreover have "length s1 \<le> length s"
    unfolding s1_def by (rule length_dropWhile_le)
  moreover from ne have "0 < length s1" by simp
  moreover from ne
  have "length (snd (strtok_scan s delim)) = length (dropWhile (\<lambda>c. c \<notin> set delim) s1) - 1"
    by (simp add: strtok_scan_def s1_def [symmetric] Let_def)
  ultimately show ?thesis by linarith
qed

text \<open>
  The loop of the distinct branch: the current token and the saved scan position are the
  loop state.
\<close>

function distinct_loop :: "int \<Rightarrow> string option \<Rightarrow> string \<Rightarrow> error + int" where
  "distinct_loop target_value None saved = Inr (- 1)"
| "distinct_loop target_value (Some token) saved =
     bind_result (atoi (Some token))
       (\<lambda>distinctnum.
          if target_value = distinctnum then Inr 0
          else distinct_loop target_value
                 (fst (strtok None ''|'' saved)) (snd (strtok None ''|'' saved)))"
  by pat_completeness auto
termination
proof (relation "measure (\<lambda>(v, tok, saved). case tok of None \<Rightarrow> 0 | Some t \<Rightarrow> Suc (length saved))")
  show "wf (measure (\<lambda>(v, tok, saved). case tok of None \<Rightarrow> 0 | Some t \<Rightarrow> Suc (length saved)))"
    by simp
next
  fix target_value :: int and token saved :: string and x :: int
  show "((target_value, fst (strtok None ''|'' saved), snd (strtok None ''|'' saved)),
         (target_value, Some token, saved))
        \<in> measure (\<lambda>(v, tok, saved). case tok of None \<Rightarrow> 0 | Some t \<Rightarrow> Suc (length saved))"
    using strtok_scan_shorter [of saved "''|''"]
    by (cases "strtok_scan saved ''|''") (auto simp: strtok_def split: option.splits)
qed

text \<open>
  \<^verbatim>\<open>bound_check\<close> returns 0 when the value is allowed and -1 when it is not. In the
  continuous branch the two \<^verbatim>\<open>atoi\<close> calls are the operands of \<^verbatim>\<open>&&\<close>: the upper bound
  is read only when the value is above the lower one.
\<close>

definition bound_check :: "int \<Rightarrow> string \<Rightarrow> error + int" where
  "bound_check target_value bnds =
     (let helper = bnds
      in if CHR ''|'' \<in> set helper then
           (let t = strtok (Some helper) ''|'' []
            in distinct_loop target_value (fst t) (snd t))
         else
           (let t1 = strtok (Some helper) ''-'' [];
                lower_bound = fst t1;
                t2 = strtok None ''-'' (snd t1);
                upper_bound = fst t2
            in bind_result (atoi lower_bound)
                 (\<lambda>lo. if target_value > lo then
                         bind_result (atoi upper_bound)
                           (\<lambda>hi. if target_value < hi then Inr 0 else Inr (- 1))
                       else Inr (- 1))))"

text \<open>
  \<^verbatim>\<open>replace_value\<close> returns 0 after a change, -1 when the value is not allowed and -2
  when no register has the id; the list is returned with it.
\<close>

fun replace_value :: "int \<Rightarrow> string \<Rightarrow> registers_t list \<Rightarrow> error + (int \<times> registers_t list)" where
  "replace_value target_value targetid [] = Inr (- 2, [])"
| "replace_value target_value targetid (r # rs) =
     (if regid r = targetid then
        bind_result (bound_check target_value (bounds r))
          (\<lambda>boundcheck_result.
             if boundcheck_result \<noteq> - 1 then Inr (0, r\<lparr>regvalue := target_value\<rparr> # rs)
             else Inr (- 1, r # rs))
      else
        bind_result (replace_value target_value targetid rs)
          (\<lambda>(code, rs'). Inr (code, r # rs')))"

subsection \<open>Requests\<close>

definition process_insertion :: "string \<Rightarrow> server \<Rightarrow> error + server" where
  "process_insertion target_request s =
     (let t1 = strtok (Some target_request) ''+'' [];
          t2 = strtok None ''+'' (snd t1);
          t3 = strtok None ''+'' (snd t2)
      in bind_result (atoi (fst t2))
           (\<lambda>reg_value.
              case fst t3 of
                None \<Rightarrow> Inl NullPointer
              | Some reg_bounds \<Rightarrow> add_register reg_value reg_bounds s))"

text \<open>
  \<^verbatim>\<open>process_atcommand\<close> gives the new state, the string written to the client and its
  own return code (0 done, 1 no such register, 2 value not allowed, 3 not an AT-command).
\<close>

definition process_atcommand :: "server \<Rightarrow> string \<Rightarrow> error + (server \<times> string \<times> int)" where
  "process_atcommand s target_request =
     (if strncmp_eq target_request ''AT+REG'' 6 then
        (let t1 = strtok (Some target_request) ''='' [];
             main_command = fst t1;
             t2 = strtok None ''='' (snd t1);
             target_value = fst t2;
             t3 = strtok main_command ''+'' (snd t2);
             t4 = strtok None ''+'' (snd t3)
         in case fst t4 of
              None \<Rightarrow> Inl NullPointer
            | Some target_regid \<Rightarrow>
                (case target_value of
                   None \<Rightarrow>
                     (let reg_result = print_register target_regid (regs s)
                      in if reg_result \<noteq> - 1
                         then Inr (s, show_int reg_result @ [CHR 0x0A], 0)
                         else Inr (s, ''INVALID REGISTER'' @ [CHR 0x0A], 1))
                 | Some tv \<Rightarrow>
                     if tv = ''?'' then
                       (case print_bounds target_regid (regs s) of
                          Some reg_bounds \<Rightarrow> Inr (s, reg_bounds, 0)
                        | None \<Rightarrow> Inr (s, ''INVALID REGISTER'' @ [CHR 0x0A], 1))
                     else
                       bind_result (atoi (Some tv))
                         (\<lambda>requested_value.
                            bind_result (replace_value requested_value target_regid (regs s))
                              (\<lambda>(value_swap_check, rs').
                                 if value_swap_check = - 2
                                 then Inr (s\<lparr>regs := rs'\<rparr>, ''INVALID REGISTER'' @ [CHR 0x0A], 1)
                                 else if value_swap_check = - 1
                                 then Inr (s\<lparr>regs := rs'\<rparr>, ''InvalidInput'' @ [CHR 0x0A], 2)
                                 else Inr (s\<lparr>regs := rs'\<rparr>, ''OK'' @ [CHR 0x0A], 0)))))
      else Inr (s, ''INVALID AT-COMMAND'' @ [CHR 0x0A], 3))"

text \<open>
  One turn of the loop of \<^verbatim>\<open>main\<close>: the new state, the string written to the client,
  and whether the loop is left.
\<close>

definition main_loop_body :: "server \<Rightarrow> string \<Rightarrow> error + (server \<times> string \<times> bool)" where
  "main_loop_body s request =
     (if strncmp_eq request ''insert'' 6 then
        bind_result (process_insertion request s)
          (\<lambda>s'. Inr (s', ''INSERTION COMPLETE'' @ [CHR 0x0A], False))
      else if strncmp_eq request ''quit'' 4 then
        Inr (s, ''TERMINATING'' @ [CHR 0x0A], True)
      else
        bind_result (process_atcommand s request)
          (\<lambda>(s', response, atcommand_res). Inr (s', response, False)))"

text \<open>
  The loop of \<^verbatim>\<open>main\<close> on the requests that arrive, in order: the state at the end, the
  answers written, and whether the loop was left (by a request that begins with
  \<^verbatim>\<open>quit\<close>; the requests behind it are not read).
\<close>

fun main_loop :: "server \<Rightarrow> string list \<Rightarrow> error + (server \<times> string list \<times> bool)" where
  "main_loop s [] = Inr (s, [], False)"
| "main_loop s (request # requests) =
     bind_result (main_loop_body s request)
       (\<lambda>(s', response, fin).
          if fin then Inr (s', [response], True)
          else bind_result (main_loop s' requests)
                 (\<lambda>(s'', responses, fin'). Inr (s'', response # responses, fin')))"

text \<open>The state in which \<^verbatim>\<open>main\<close> enters its loop.\<close>

definition main_init :: "error + server" where
  "main_init = add_register 3 ''1|2|3'' (init_reglist startup)"

text \<open>
  A state is reachable when \<^verbatim>\<open>main\<close> enters its loop with it, or a turn of the loop
  that does not leave the loop produces it from a reachable state.
\<close>

inductive reachable :: "server \<Rightarrow> bool" where
  start: "main_init = Inr s \<Longrightarrow> reachable s"
| turn: "reachable s \<Longrightarrow> main_loop_body s request = Inr (s', response, False) \<Longrightarrow> reachable s'"

text \<open>The state in which \<^verbatim>\<open>main\<close> enters its loop, written out.\<close>

definition default_regs :: "registers_t list" where
  "default_regs =
     [\<lparr>regid = ''REG1'', regvalue = 0, bounds = ''0-16535''\<rparr>,
      \<lparr>regid = ''REG2'', regvalue = 3, bounds = ''1|2|3''\<rparr>]"

definition loop_entry :: server where
  "loop_entry = \<lparr>regs = default_regs, numofregs = 2\<rparr>"

text \<open>
  The state after \<open>k - 2\<close> requests \<^verbatim>\<open>insert+0+0-10\<close>: the two registers of the start
  and the registers \<^verbatim>\<open>REG3\<close> to \<^verbatim>\<open>REG<k>\<close>.
\<close>

definition filled :: "nat \<Rightarrow> server" where
  "filled k =
     \<lparr>regs = default_regs @
        map (\<lambda>i. \<lparr>regid = ''REG'' @ show_int (int i + 1), regvalue = 0, bounds = ''0-10''\<rparr>) [2..<k],
      numofregs = int k\<rparr>"

section \<open>Notions of the specification\<close>

subsection \<open>Bounds strings\<close>

text \<open>
  The specification splits a bounds string at a separator and reads each piece as an
  integer. \<open>split_on\<close> is that split, \<open>pieces\<close> its non-empty pieces, \<open>is_integer\<close> an
  integer literal (digits with an optional sign), \<open>continuous_shape\<close> the shape "an
  integer, a \<^verbatim>\<open>-\<close>, an integer" and \<open>discrete_shape\<close> the presence of \<^verbatim>\<open>|\<close>.
\<close>

fun split_on :: "char \<Rightarrow> string \<Rightarrow> string list" where
  "split_on c [] = [[]]"
| "split_on c (x # xs) =
     (if x = c then [] # split_on c xs
      else (case split_on c xs of [] \<Rightarrow> [[x]] | p # ps \<Rightarrow> (x # p) # ps))"

definition pieces :: "char \<Rightarrow> string \<Rightarrow> string list" where
  "pieces c s = filter (\<lambda>p. p \<noteq> []) (split_on c s)"

definition is_integer :: "string \<Rightarrow> bool" where
  "is_integer s =
     (case s of
        [] \<Rightarrow> False
      | c # cs \<Rightarrow>
          if c = CHR ''-'' \<or> c = CHR ''+'' then cs \<noteq> [] \<and> list_all isdigit cs
          else list_all isdigit (c # cs))"

definition continuous_shape :: "string \<Rightarrow> bool" where
  "continuous_shape b =
     list_ex (\<lambda>i. b ! i = CHR ''-'' \<and> is_integer (take i b) \<and> is_integer (drop (Suc i) b))
       [0..<length b]"

definition discrete_shape :: "string \<Rightarrow> bool" where
  "discrete_shape b = (CHR ''|'' \<in> set b)"

text \<open>A token whose number, as \<^verbatim>\<open>atoi\<close> reads it, is within the range of \<^verbatim>\<open>int\<close>.\<close>

definition fits_int :: "string \<Rightarrow> bool" where
  "fits_int p = (INT_MIN \<le> atoi_value p \<and> atoi_value p \<le> INT_MAX)"

text \<open>
  A token that starts with a number: after white space and at most one sign comes a
  digit.
\<close>

definition starts_with_number :: "string \<Rightarrow> bool" where
  "starts_with_number s =
     (case dropWhile isspace s of
        [] \<Rightarrow> False
      | c # cs \<Rightarrow>
          if c = CHR ''-'' \<or> c = CHR ''+'' then (case cs of [] \<Rightarrow> False | d # ds \<Rightarrow> isdigit d)
          else isdigit c)"

subsection \<open>The grammar of requests\<close>

text \<open>
  The grammar of the specification: \<^verbatim>\<open>quit\<close>; \<^verbatim>\<open>insert+<int>+<bounds>\<close>;
  \<^verbatim>\<open>AT+REG<N>\<close>, alone or followed by \<^verbatim>\<open>=\<close> and a token (\<^verbatim>\<open>?\<close> or any other).
\<close>

definition quit_form :: "string \<Rightarrow> bool" where
  "quit_form r = (r = ''quit'')"

definition insert_form :: "string \<Rightarrow> bool" where
  "insert_form r =
     (take 7 r = ''insert+'' \<and>
      list_ex (\<lambda>i. drop 7 r ! i = CHR ''+'' \<and> is_integer (take i (drop 7 r))
                 \<and> drop (Suc i) (drop 7 r) \<noteq> [])
        [0..<length (drop 7 r)])"

definition at_form :: "string \<Rightarrow> bool" where
  "at_form r =
     (take 6 r = ''AT+REG'' \<and> takeWhile isdigit (drop 6 r) \<noteq> [] \<and>
      (case dropWhile isdigit (drop 6 r) of
         [] \<Rightarrow> True
       | c # token \<Rightarrow> c = CHR ''='' \<and> token \<noteq> []))"

definition matches_grammar :: "string \<Rightarrow> bool" where
  "matches_grammar r = (quit_form r \<or> insert_form r \<or> at_form r)"

subsection \<open>The store\<close>

text \<open>
  \<open>write_first\<close> is the list after a successful write: the first register with the id
  holds the new value, every other register is as before.
\<close>

fun write_first :: "string \<Rightarrow> int \<Rightarrow> registers_t list \<Rightarrow> registers_t list" where
  "write_first targetid v [] = []"
| "write_first targetid v (r # rs) =
     (if regid r = targetid then r\<lparr>regvalue := v\<rparr> # rs else r # write_first targetid v rs)"

text \<open>
  The ids in the list are \<^verbatim>\<open>REG1\<close>, \<^verbatim>\<open>REG2\<close>, and so on (the register at position \<open>i\<close>,
  counted from 0, has the number \<open>i + 1\<close>), and the counter is the length.
\<close>

definition ids_in_order :: "server \<Rightarrow> bool" where
  "ids_in_order s =
     (regs s \<noteq> [] \<and> numofregs s = int (length (regs s)) \<and>
      map regid (regs s) = map (\<lambda>i. ''REG'' @ show_int (int i + 1)) [0..<length (regs s)])"


subsection \<open>The three register commands\<close>

text \<open>
  What \<^verbatim>\<open>process_atcommand\<close> does once it has the id and the token behind \<^verbatim>\<open>=\<close>, branch
  by branch as the source has them: the read of the value (no token), the read of the
  bounds (the token \<^verbatim>\<open>?\<close>) and the write of the number \<^verbatim>\<open>atoi\<close> reads from any other
  token.
\<close>

definition read_command :: "server \<Rightarrow> string \<Rightarrow> error + (server \<times> string \<times> int)" where
  "read_command s target_regid =
     (let reg_result = print_register target_regid (regs s)
      in if reg_result \<noteq> - 1
         then Inr (s, show_int reg_result @ [CHR 0x0A], 0)
         else Inr (s, ''INVALID REGISTER'' @ [CHR 0x0A], 1))"

definition readbounds_command :: "server \<Rightarrow> string \<Rightarrow> error + (server \<times> string \<times> int)" where
  "readbounds_command s target_regid =
     (case print_bounds target_regid (regs s) of
        Some reg_bounds \<Rightarrow> Inr (s, reg_bounds, 0)
      | None \<Rightarrow> Inr (s, ''INVALID REGISTER'' @ [CHR 0x0A], 1))"

definition write_command :: "server \<Rightarrow> string \<Rightarrow> int \<Rightarrow> error + (server \<times> string \<times> int)" where
  "write_command s target_regid requested_value =
     bind_result (replace_value requested_value target_regid (regs s))
       (\<lambda>(value_swap_check, rs').
          if value_swap_check = - 2
          then Inr (s\<lparr>regs := rs'\<rparr>, ''INVALID REGISTER'' @ [CHR 0x0A], 1)
          else if value_swap_check = - 1
          then Inr (s\<lparr>regs := rs'\<rparr>, ''InvalidInput'' @ [CHR 0x0A], 2)
          else Inr (s\<lparr>regs := rs'\<rparr>, ''OK'' @ [CHR 0x0A], 0))"

section \<open>Properties\<close>

subsection \<open>Facts about the library functions\<close>

lemma strtok_scan_Nil: "strtok_scan [] delim = (None, [])"
  by (simp add: strtok_scan_def)

lemma strtok_scan_token_delim:
  assumes "a \<noteq> []" and "set a \<inter> set delim = {}" and "c \<in> set delim"
  shows "strtok_scan (a @ c # r) delim = (Some a, r)"
proof -
  from assms obtain x xs where a: "a = x # xs" by (cases a) auto
  with assms have x: "x \<notin> set delim" by auto
  have nd: "\<And>y. y \<in> set a \<Longrightarrow> y \<notin> set delim" using assms by auto
  have skip: "dropWhile (\<lambda>c. c \<in> set delim) (a @ c # r) = a @ c # r"
    using x by (simp add: a)
  have tw: "takeWhile (\<lambda>c. c \<notin> set delim) (a @ c # r) = a"
    using nd assms(3) by simp
  have dw: "dropWhile (\<lambda>c. c \<notin> set delim) (a @ c # r) = c # r"
    using nd assms(3) by simp
  show ?thesis
    using assms(1) by (simp add: strtok_scan_def skip tw dw)
qed

lemma strtok_scan_token_end:
  assumes "a \<noteq> []" and "set a \<inter> set delim = {}"
  shows "strtok_scan a delim = (Some a, [])"
proof -
  from assms obtain x xs where a: "a = x # xs" by (cases a) auto
  with assms have x: "x \<notin> set delim" by auto
  have nd: "\<And>y. y \<in> set a \<Longrightarrow> y \<notin> set delim" using assms by auto
  have skip: "dropWhile (\<lambda>c. c \<in> set delim) a = a"
    using x by (simp add: a)
  have tw: "takeWhile (\<lambda>c. c \<notin> set delim) a = a"
    using nd by simp
  have dw: "dropWhile (\<lambda>c. c \<notin> set delim) a = []"
    using nd by simp
  show ?thesis
    using assms(1) by (simp add: strtok_scan_def skip tw dw)
qed

lemma of_char_digit_char: "d < 10 \<Longrightarrow> (of_char (digit_char d) :: nat) = 48 + d"
proof -
  assume "d < 10"
  then have "d = 0 \<or> d = 1 \<or> d = 2 \<or> d = 3 \<or> d = 4 \<or> d = 5 \<or> d = 6 \<or> d = 7 \<or> d = 8 \<or> d = 9"
    by arith
  then show ?thesis
    by (elim disjE) (simp_all add: digit_char_def)
qed

lemma isdigit_digit_char: "d < 10 \<Longrightarrow> isdigit (digit_char d)"
  by (simp add: isdigit_def of_char_digit_char)

lemma digit_value_digit_char: "d < 10 \<Longrightarrow> digit_value (digit_char d) = int d"
  by (simp add: digit_value_def of_char_digit_char)

lemma show_nat_small: "n < 10 \<Longrightarrow> show_nat n = [digit_char n]"
  by (subst show_nat.simps) simp

lemma show_nat_big: "\<not> n < 10 \<Longrightarrow> show_nat n = show_nat (n div 10) @ [digit_char (n mod 10)]"
  by (subst show_nat.simps) simp

lemma isdigit_show_nat: "c \<in> set (show_nat n) \<Longrightarrow> isdigit c"
proof (induction n arbitrary: c rule: show_nat.induct)
  case (1 n)
  show ?case
  proof (cases "n < 10")
    case True
    with "1.prems" show ?thesis
      by (simp add: show_nat_small isdigit_digit_char)
  next
    case False
    with "1.prems" have "c \<in> set (show_nat (n div 10)) \<or> c = digit_char (n mod 10)"
      by (auto simp: show_nat_big)
    with False "1.IH" show ?thesis
      by (auto simp: isdigit_digit_char)
  qed
qed

lemma show_nat_not_Nil: "show_nat n \<noteq> []"
  by (cases "n < 10") (simp_all add: show_nat_small show_nat_big)

lemma digits_value_all:
  "(\<And>c. c \<in> set s \<Longrightarrow> isdigit c) \<Longrightarrow>
   digits_value s = foldl (\<lambda>acc c. acc * 10 + digit_value c) 0 s"
  by (simp add: digits_value_def takeWhile_eq_all_conv [THEN iffD2])

lemma digits_value_show_nat: "digits_value (show_nat n) = int n"
proof (induction n rule: show_nat.induct)
  case (1 n)
  show ?case
  proof (cases "n < 10")
    case True
    then show ?thesis
      by (simp add: show_nat_small digits_value_def isdigit_digit_char digit_value_digit_char)
  next
    case False
    have all: "\<And>c. c \<in> set (show_nat (n div 10)) \<Longrightarrow> isdigit c"
      by (rule isdigit_show_nat)
    have "digits_value (show_nat n) = digits_value (show_nat (n div 10) @ [digit_char (n mod 10)])"
      using False by (simp add: show_nat_big)
    also have "\<dots> = foldl (\<lambda>acc c. acc * 10 + digit_value c) 0 (show_nat (n div 10) @ [digit_char (n mod 10)])"
      by (rule digits_value_all) (auto simp: isdigit_show_nat isdigit_digit_char)
    also have "\<dots> = digits_value (show_nat (n div 10)) * 10 + digit_value (digit_char (n mod 10))"
      by (simp add: digits_value_all [OF all])
    also have "\<dots> = int (n div 10) * 10 + int (n mod 10)"
      using False "1.IH" by (simp add: digit_value_digit_char)
    also have "\<dots> = int n"
      by presburger
    finally show ?thesis .
  qed
qed

lemma isdigit_not_space: "isdigit c \<Longrightarrow> \<not> isspace c"
  by (auto simp: isdigit_def isspace_def)

lemma isdigit_not_sign: "isdigit c \<Longrightarrow> c \<noteq> CHR ''-'' \<and> c \<noteq> CHR ''+'' \<and> c \<noteq> CHR ''|'' \<and> c \<noteq> CHR ''=''"
  by (auto simp: isdigit_def)

lemma atoi_value_show_nat: "atoi_value (show_nat n) = int n"
proof -
  obtain c cs where s: "show_nat n = c # cs"
    using show_nat_not_Nil [of n] by (cases "show_nat n") auto
  have d: "isdigit c" using isdigit_show_nat [of c n] s by simp
  have "atoi_value (c # cs) = digits_value (c # cs)"
    using isdigit_not_space [OF d] isdigit_not_sign [OF d] by (simp add: atoi_value_def)
  then show ?thesis
    using digits_value_show_nat [of n] by (simp add: s)
qed

lemma atoi_value_show_int: "atoi_value (show_int i) = i"
proof (cases "i < 0")
  case True
  then show ?thesis
    by (simp add: show_int_def atoi_value_def isspace_def digits_value_show_nat)
next
  case False
  then show ?thesis
    by (simp add: show_int_def atoi_value_show_nat)
qed

lemma atoi_show_int:
  "INT_MIN \<le> i \<Longrightarrow> i \<le> INT_MAX \<Longrightarrow> atoi (Some (show_int i)) = Inr i"
  by (simp add: atoi_def atoi_value_show_int)

subsection \<open>The states the server reaches\<close>

lemma main_init_value: "main_init = Inr \<lparr>regs = default_regs, numofregs = 2\<rparr>"
  by code_simp

lemma reachable_default: "reachable \<lparr>regs = default_regs, numofregs = 2\<rparr>"
  by (rule reachable.start) (rule main_init_value)

text \<open>
  C10: a reachable state holds a register whose stored value is -1 (the request
  \<^verbatim>\<open>insert+-1+0-10\<close> creates it as \<^verbatim>\<open>REG3\<close>), and reading that register is answered
  with \<^verbatim>\<open>INVALID REGISTER\<close>, since \<^verbatim>\<open>print_register\<close> returns -1 both for a missing
  register and for a stored -1.
\<close>

theorem minus_one_read_as_invalid_register:
  "\<exists>s. reachable s
     \<and> regs s = default_regs @ [\<lparr>regid = ''REG3'', regvalue = - 1, bounds = ''0-10''\<rparr>]
     \<and> print_register ''REG3'' (regs s) = - 1
     \<and> process_atcommand s ''AT+REG3'' = Inr (s, ''INVALID REGISTER'' @ [CHR 0x0A], 1)
     \<and> main_loop_body s ''AT+REG3'' = Inr (s, ''INVALID REGISTER'' @ [CHR 0x0A], False)"
proof -
  let ?s1 = "\<lparr>regs = default_regs @ [\<lparr>regid = ''REG3'', regvalue = - 1, bounds = ''0-10''\<rparr>],
              numofregs = 3\<rparr>"
  have ins: "main_loop_body \<lparr>regs = default_regs, numofregs = 2\<rparr> ''insert+-1+0-10''
             = Inr (?s1, ''INSERTION COMPLETE'' @ [CHR 0x0A], False)"
    by code_simp
  have r: "reachable ?s1"
    by (rule reachable.turn [OF reachable_default ins])
  have rd: "main_loop_body ?s1 ''AT+REG3'' = Inr (?s1, ''INVALID REGISTER'' @ [CHR 0x0A], False)"
    by code_simp
  have pa: "process_atcommand ?s1 ''AT+REG3'' = Inr (?s1, ''INVALID REGISTER'' @ [CHR 0x0A], 1)"
    by code_simp
  have pr: "print_register ''REG3'' (regs ?s1) = - 1"
    by code_simp
  from r rd pa pr show ?thesis
    by (intro exI [of _ ?s1]) simp
qed

subsection \<open>\<^verbatim>\<open>strtok\<close> walks the non-empty pieces\<close>

lemma split_on_unfold:
  "split_on c s =
     takeWhile (\<lambda>x. x \<noteq> c) s #
       (case dropWhile (\<lambda>x. x \<noteq> c) s of [] \<Rightarrow> [] | y # r \<Rightarrow> split_on c r)"
  by (induction s) auto

lemma pieces_Nil: "pieces c [] = []"
  by (simp add: pieces_def)

lemma pieces_skip: "pieces c (dropWhile (\<lambda>x. x = c) s) = pieces c s"
  by (induction s) (auto simp: pieces_def)

lemma pieces_first:
  assumes "s \<noteq> []" and "hd s \<noteq> c"
  shows "pieces c s =
           takeWhile (\<lambda>x. x \<noteq> c) s # pieces c (drop 1 (dropWhile (\<lambda>x. x \<noteq> c) s))"
proof -
  from assms have tw: "takeWhile (\<lambda>x. x \<noteq> c) s \<noteq> []"
    by (cases s) auto
  have u: "pieces c s =
      takeWhile (\<lambda>x. x \<noteq> c) s #
        filter (\<lambda>p. p \<noteq> [])
          (case dropWhile (\<lambda>x. x \<noteq> c) s of [] \<Rightarrow> [] | y # r \<Rightarrow> split_on c r)"
    using tw unfolding pieces_def by (subst split_on_unfold) simp
  show ?thesis
  proof (cases "dropWhile (\<lambda>x. x \<noteq> c) s")
    case Nil
    show ?thesis
      unfolding u Nil by (simp add: pieces_def)
  next
    case (Cons y r)
    show ?thesis
      unfolding u Cons by (simp add: pieces_def)
  qed
qed

lemma strtok_scan_pieces:
  "strtok_scan s [c] =
     (case pieces c s of
        [] \<Rightarrow> (None, [])
      | p # ps \<Rightarrow> (Some p, snd (strtok_scan s [c])))"
  and strtok_scan_rest: "pieces c (snd (strtok_scan s [c])) = tl (pieces c s)"
proof -
  define s1 where "s1 = dropWhile (\<lambda>x. x = c) s"
  have p: "pieces c s = pieces c s1"
    by (simp add: s1_def pieces_skip)
  have scan: "strtok_scan s [c] =
      (if s1 = [] then (None, [])
       else (Some (takeWhile (\<lambda>x. x \<noteq> c) s1), drop 1 (dropWhile (\<lambda>x. x \<noteq> c) s1)))"
    by (simp add: strtok_scan_def s1_def Let_def)
  have both: "strtok_scan s [c] =
     (case pieces c s of [] \<Rightarrow> (None, []) | p # ps \<Rightarrow> (Some p, snd (strtok_scan s [c])))
     \<and> pieces c (snd (strtok_scan s [c])) = tl (pieces c s)"
  proof (cases "s1 = []")
    case True
    then show ?thesis
      by (simp add: scan p pieces_Nil)
  next
    case False
    then have "hd s1 \<noteq> c"
      using hd_dropWhile [of "\<lambda>x. x = c" s] by (simp add: s1_def)
    from pieces_first [OF False this] False show ?thesis
      by (simp add: scan p)
  qed
  from both show "strtok_scan s [c] =
     (case pieces c s of [] \<Rightarrow> (None, []) | p # ps \<Rightarrow> (Some p, snd (strtok_scan s [c])))"
    by (rule conjunct1)
  from both show "pieces c (snd (strtok_scan s [c])) = tl (pieces c s)"
    by (rule conjunct2)
qed

lemma atoi_fits: "fits_int p \<Longrightarrow> atoi (Some p) = Inr (atoi_value p)"
  by (simp add: atoi_def fits_int_def)

lemma distinct_loop_pieces:
  "(\<And>p. p \<in> set (pieces CHR ''|'' s) \<Longrightarrow> fits_int p) \<Longrightarrow>
   distinct_loop v (fst (strtok_scan s ''|'')) (snd (strtok_scan s ''|''))
     = Inr (if v \<in> atoi_value ` set (pieces CHR ''|'' s) then 0 else - 1)"
proof (induction "pieces CHR ''|'' s" arbitrary: s)
  case Nil
  then show ?case
    using strtok_scan_pieces [of s "CHR ''|''"] by simp
next
  case (Cons p ps)
  from Cons.hyps(2) [symmetric] have ps: "pieces CHR ''|'' s = p # ps" .
  have scan: "strtok_scan s ''|'' = (Some p, snd (strtok_scan s ''|''))"
    using strtok_scan_pieces [of s "CHR ''|''"] ps by simp
  have rest: "pieces CHR ''|'' (snd (strtok_scan s ''|'')) = ps"
    using strtok_scan_rest [of "CHR ''|''" s] ps by simp
  have fit: "fits_int p" using Cons.prems ps by simp
  have IH: "distinct_loop v (fst (strtok_scan (snd (strtok_scan s ''|'')) ''|''))
              (snd (strtok_scan (snd (strtok_scan s ''|'')) ''|''))
            = Inr (if v \<in> atoi_value ` set ps then 0 else - 1)"
    using Cons.hyps(1) [of "snd (strtok_scan s ''|'')"] rest Cons.prems ps by simp
  have "distinct_loop v (fst (strtok_scan s ''|'')) (snd (strtok_scan s ''|''))
        = distinct_loop v (Some p) (snd (strtok_scan s ''|''))"
    using scan by (metis fst_conv)
  also have "\<dots> = Inr (if v \<in> atoi_value ` set (p # ps) then 0 else - 1)"
    using IH by (simp add: atoi_fits [OF fit] bind_result_def strtok_def)
  finally show ?case by (simp add: ps)
qed

lemma bound_check_discrete:
  assumes "discrete_shape b" and "\<And>p. p \<in> set (pieces CHR ''|'' b) \<Longrightarrow> fits_int p"
  shows "bound_check x b = Inr (if x \<in> atoi_value ` set (pieces CHR ''|'' b) then 0 else - 1)"
  using assms(1) distinct_loop_pieces [OF assms(2), of b x]
  by (simp add: bound_check_def discrete_shape_def strtok_def Let_def)

lemma bound_check_continuous:
  assumes "\<not> discrete_shape b" and "pieces CHR ''-'' b = p1 # p2 # ps"
    and "fits_int p1" and "fits_int p2"
  shows "bound_check v b = Inr (if atoi_value p1 < v \<and> v < atoi_value p2 then 0 else - 1)"
proof -
  have s1: "strtok_scan b ''-'' = (Some p1, snd (strtok_scan b ''-''))"
    using strtok_scan_pieces [of b "CHR ''-''"] assms(2) by simp
  have r1: "pieces CHR ''-'' (snd (strtok_scan b ''-'')) = p2 # ps"
    using strtok_scan_rest [of "CHR ''-''" b] assms(2) by simp
  have s2: "fst (strtok_scan (snd (strtok_scan b ''-'')) ''-'') = Some p2"
    using strtok_scan_pieces [of "snd (strtok_scan b ''-'')" "CHR ''-''"] r1
    by (metis (no_types, lifting) fst_conv list.simps(5))
  have f1: "fst (strtok_scan b ''-'') = Some p1"
    using s1 by (metis fst_conv)
  show ?thesis
    using assms(1)
    by (simp add: bound_check_def discrete_shape_def strtok_def Let_def f1 s2
        atoi_fits [OF assms(3)] atoi_fits [OF assms(4)] bind_result_def)
qed

subsection \<open>Lookups and writes on the list\<close>

lemma print_bounds_None: "(print_bounds targetid rs = None) = (targetid \<notin> regid ` set rs)"
  by (induction rs) auto

lemma print_register_absent: "targetid \<notin> regid ` set rs \<Longrightarrow> print_register targetid rs = - 1"
  by (induction rs) auto

lemma replace_value_absent:
  "targetid \<notin> regid ` set rs \<Longrightarrow> replace_value v targetid rs = Inr (- 2, rs)"
  by (induction rs) (auto simp: bind_result_def)

lemma replace_value_present:
  "print_bounds targetid rs = Some b \<Longrightarrow>
   replace_value v targetid rs =
     bind_result (bound_check v b)
       (\<lambda>c. if c \<noteq> - 1 then Inr (0, write_first targetid v rs) else Inr (- 1, rs))"
proof (induction rs)
  case Nil
  then show ?case by simp
next
  case (Cons r rs)
  show ?case
  proof (cases "regid r = targetid")
    case True
    with Cons.prems show ?thesis
      by (simp cong: if_cong)
  next
    case False
    with Cons.prems have "print_bounds targetid rs = Some b" by simp
    from Cons.IH [OF this] False show ?thesis
      by (cases "bound_check v b") (simp_all add: bind_result_def)
  qed
qed

lemma print_register_write_first:
  "targetid \<in> regid ` set rs \<Longrightarrow> print_register targetid (write_first targetid v rs) = v"
  by (induction rs) auto

lemma map_regid_write_first: "map regid (write_first targetid v rs) = map regid rs"
  by (induction rs) auto

lemma map_bounds_write_first: "map bounds (write_first targetid v rs) = map bounds rs"
  by (induction rs) auto

subsection \<open>How \<^verbatim>\<open>process_atcommand\<close> takes a request apart\<close>

lemma atcommand_tokens_write:
  assumes n: "CHR ''+'' \<notin> set n" "CHR ''='' \<notin> set n"
    and tok: "tok \<noteq> []" "CHR ''='' \<notin> set tok"
  shows "strtok_scan (''AT+REG'' @ n @ ''='' @ tok) ''='' = (Some (''AT+REG'' @ n), tok)"
    and "strtok_scan tok ''='' = (Some tok, [])"
    and "strtok_scan (''AT+REG'' @ n) ''+'' = (Some ''AT'', ''REG'' @ n)"
    and "strtok_scan (''REG'' @ n) ''+'' = (Some (''REG'' @ n), [])"
proof -
  show "strtok_scan (''AT+REG'' @ n @ ''='' @ tok) ''='' = (Some (''AT+REG'' @ n), tok)"
    using strtok_scan_token_delim [of "''AT+REG'' @ n" "''=''" "CHR ''=''" tok] n by simp
  show "strtok_scan tok ''='' = (Some tok, [])"
    using strtok_scan_token_end [of tok "''=''"] tok by simp
  show "strtok_scan (''AT+REG'' @ n) ''+'' = (Some ''AT'', ''REG'' @ n)"
    using strtok_scan_token_delim [of "''AT''" "''+''" "CHR ''+''" "''REG'' @ n"] by simp
  show "strtok_scan (''REG'' @ n) ''+'' = (Some (''REG'' @ n), [])"
    using strtok_scan_token_end [of "''REG'' @ n" "''+''"] n by simp
qed

lemma process_atcommand_write:
  assumes n: "CHR ''+'' \<notin> set n" "CHR ''='' \<notin> set n"
    and tok: "tok \<noteq> []" "CHR ''='' \<notin> set tok" "tok \<noteq> ''?''"
  shows "process_atcommand s (''AT+REG'' @ n @ ''='' @ tok) =
     bind_result (atoi (Some tok))
       (\<lambda>requested_value.
          bind_result (replace_value requested_value (''REG'' @ n) (regs s))
            (\<lambda>(value_swap_check, rs').
               if value_swap_check = - 2
               then Inr (s\<lparr>regs := rs'\<rparr>, ''INVALID REGISTER'' @ [CHR 0x0A], 1)
               else if value_swap_check = - 1
               then Inr (s\<lparr>regs := rs'\<rparr>, ''InvalidInput'' @ [CHR 0x0A], 2)
               else Inr (s\<lparr>regs := rs'\<rparr>, ''OK'' @ [CHR 0x0A], 0)))"
  using tok(3)
  by (simp add: process_atcommand_def strncmp_eq_def strtok_def Let_def
      atcommand_tokens_write [OF n tok(1,2), simplified])

lemma process_atcommand_read:
  assumes n: "CHR ''+'' \<notin> set n" "CHR ''='' \<notin> set n"
  shows "process_atcommand s (''AT+REG'' @ n) =
     (if print_register (''REG'' @ n) (regs s) \<noteq> - 1
      then Inr (s, show_int (print_register (''REG'' @ n) (regs s)) @ [CHR 0x0A], 0)
      else Inr (s, ''INVALID REGISTER'' @ [CHR 0x0A], 1))"
proof -
  have t1: "strtok_scan (''AT+REG'' @ n) ''='' = (Some (''AT+REG'' @ n), [])"
    using strtok_scan_token_end [of "''AT+REG'' @ n" "''=''"] n by simp
  have t3: "strtok_scan (''AT+REG'' @ n) ''+'' = (Some ''AT'', ''REG'' @ n)"
    using strtok_scan_token_delim [of "''AT''" "''+''" "CHR ''+''" "''REG'' @ n"] by simp
  have t4: "strtok_scan (''REG'' @ n) ''+'' = (Some (''REG'' @ n), [])"
    using strtok_scan_token_end [of "''REG'' @ n" "''+''"] n by simp
  show ?thesis
    by (simp add: process_atcommand_def strncmp_eq_def strtok_def Let_def
        t1 [simplified] t3 [simplified] t4 [simplified] strtok_scan_Nil)
qed



subsection \<open>Malformed bounds strings\<close>

text \<open>
  C1 as stated: a bounds string that has neither shape is rejected for every value, with
  no error. It fails in two ways. The string \<^verbatim>\<open>5\<close> has one piece only: for a value above
  5 the upper bound is \<^verbatim>\<open>NULL\<close> and \<^verbatim>\<open>atoi\<close> reads through it. The string \<^verbatim>\<open>x-10\<close> has
  two pieces, read as 0 and 10, and the value 5 is accepted.
\<close>

theorem malformed_bounds_counterexample:
  "\<not> discrete_shape ''5'' \<and> \<not> continuous_shape ''5''
   \<and> bound_check 7 ''5'' = Inl NullPointer
   \<and> \<not> discrete_shape ''x-10'' \<and> \<not> continuous_shape ''x-10''
   \<and> bound_check 5 ''x-10'' = Inr 0"
  by code_simp

text \<open>
  C1, amended: for a bounds string without \<^verbatim>\<open>|\<close> whose first two non-empty pieces
  between \<^verbatim>\<open>-\<close> exist and are read by \<^verbatim>\<open>atoi\<close> as \<open>lo\<close> and \<open>hi\<close> within the range of
  \<^verbatim>\<open>int\<close>, the bounds check gives a result for every value, accepts exactly the values
  with \<open>lo < v < hi\<close>, and so rejects every value exactly when \<open>hi \<le> lo + 1\<close>.
\<close>

theorem bound_check_two_pieces:
  assumes "\<not> discrete_shape b" and "pieces CHR ''-'' b = p1 # p2 # ps"
    and "fits_int p1" and "fits_int p2"
  shows "bound_check v b = Inr (if atoi_value p1 < v \<and> v < atoi_value p2 then 0 else - 1)
         \<and> ((\<forall>w. bound_check w b = Inr (- 1)) = (atoi_value p2 \<le> atoi_value p1 + 1))"
proof -
  have eq: "\<And>w. bound_check w b
              = Inr (if atoi_value p1 < w \<and> w < atoi_value p2 then 0 else - 1)"
    by (rule bound_check_continuous [OF assms])
  have "(\<forall>w. bound_check w b = Inr (- 1)) = (\<forall>w. \<not> (atoi_value p1 < w \<and> w < atoi_value p2))"
    by (simp add: eq)
  also have "\<dots> = (atoi_value p2 \<le> atoi_value p1 + 1)"
  proof
    assume a: "\<forall>w. \<not> (atoi_value p1 < w \<and> w < atoi_value p2)"
    then have "\<not> (atoi_value p1 < atoi_value p1 + 1 \<and> atoi_value p1 + 1 < atoi_value p2)"
      by blast
    then show "atoi_value p2 \<le> atoi_value p1 + 1" by simp
  next
    assume "atoi_value p2 \<le> atoi_value p1 + 1"
    then show "\<forall>w. \<not> (atoi_value p1 < w \<and> w < atoi_value p2)" by auto
  qed
  finally show ?thesis
    using eq by simp
qed

theorem bound_check_two_pieces_witness:
  "bound_check 5 ''x-y'' = Inr (- 1) \<and> (\<forall>w. bound_check w ''x-y'' = Inr (- 1))"
proof -
  have h1: "\<not> discrete_shape ''x-y''" by code_simp
  have h2: "pieces CHR ''-'' ''x-y'' = ''x'' # ''y'' # []" by code_simp
  have h3: "fits_int ''x''" by code_simp
  have h4: "fits_int ''y''" by code_simp
  have v: "atoi_value ''x'' = 0" "atoi_value ''y'' = 0" by code_simp+
  show ?thesis
    using bound_check_two_pieces [OF h1 h2 h3 h4, of 5] by (simp add: v)
qed

subsection \<open>What \<^verbatim>\<open>atoi\<close> makes of a token that is not a number\<close>

lemma digits_value_no_digit: "(case s of [] \<Rightarrow> True | d # ds \<Rightarrow> \<not> isdigit d) \<Longrightarrow> digits_value s = 0"
  by (cases s) (simp_all add: digits_value_def)

lemma atoi_value_no_number: "\<not> starts_with_number s \<Longrightarrow> atoi_value s = 0"
proof (cases "dropWhile isspace s")
  case Nil
  show ?thesis unfolding atoi_value_def Nil by simp
next
  case (Cons c cs)
  assume nn: "\<not> starts_with_number s"
  show ?thesis
  proof (cases "c = CHR ''-'' \<or> c = CHR ''+''")
    case True
    with nn Cons have "case cs of [] \<Rightarrow> True | d # ds \<Rightarrow> \<not> isdigit d"
      by (auto simp: starts_with_number_def split: list.splits)
    from digits_value_no_digit [OF this] True Cons show ?thesis
      by (auto simp: atoi_value_def)
  next
    case False
    with nn Cons have "\<not> isdigit c"
      by (simp add: starts_with_number_def)
    then have "digits_value (c # cs) = 0"
      by (simp add: digits_value_def)
    with False Cons show ?thesis
      by (simp add: atoi_value_def)
  qed
qed

subsection \<open>Discrete bounds\<close>

text \<open>
  C2 as stated: with \<^verbatim>\<open>|\<close> in the bounds a write succeeds only for a listed integer, and
  a piece that is not an integer matches nothing, 0 included. It fails for the bounds
  \<^verbatim>\<open>a|5\<close>: the piece \<^verbatim>\<open>a\<close> is read as 0, and writing 0 succeeds.
\<close>

theorem discrete_bounds_counterexample:
  "discrete_shape ''a|5'' \<and> pieces CHR ''|'' ''a|5'' = [''a'', ''5''] \<and> \<not> is_integer ''a''
   \<and> bound_check 0 ''a|5'' = Inr 0
   \<and> replace_value 0 ''REG3'' [\<lparr>regid = ''REG3'', regvalue = 5, bounds = ''a|5''\<rparr>]
       = Inr (0, [\<lparr>regid = ''REG3'', regvalue = 0, bounds = ''a|5''\<rparr>])"
  by code_simp

text \<open>
  C2, amended: for a register whose bounds contain \<^verbatim>\<open>|\<close> (every non-empty piece within
  the range of \<^verbatim>\<open>int\<close>), a write of \<open>x\<close> succeeds exactly when \<open>x\<close> is the number \<^verbatim>\<open>atoi\<close>
  reads from one of the non-empty pieces between the separators; an empty piece matches
  nothing, and a piece that does not start with a number is read as 0 and matches 0.
\<close>

theorem discrete_bounds_write:
  assumes "print_bounds targetid rs = Some b" and "discrete_shape b"
    and "\<forall>p \<in> set (pieces CHR ''|'' b). fits_int p"
  shows "bound_check x b = Inr (if x \<in> atoi_value ` set (pieces CHR ''|'' b) then 0 else - 1)
     \<and> replace_value x targetid rs
         = Inr (if x \<in> atoi_value ` set (pieces CHR ''|'' b)
                then (0, write_first targetid x rs) else (- 1, rs))
     \<and> [] \<notin> set (pieces CHR ''|'' b)
     \<and> (\<forall>p \<in> set (pieces CHR ''|'' b). \<not> starts_with_number p \<longrightarrow> atoi_value p = 0)"
proof -
  have bc: "bound_check x b = Inr (if x \<in> atoi_value ` set (pieces CHR ''|'' b) then 0 else - 1)"
    using assms(2,3) by (intro bound_check_discrete) auto
  have "replace_value x targetid rs
         = Inr (if x \<in> atoi_value ` set (pieces CHR ''|'' b)
                then (0, write_first targetid x rs) else (- 1, rs))"
    by (simp add: replace_value_present [OF assms(1)] bc bind_result_def)
  moreover have "[] \<notin> set (pieces CHR ''|'' b)"
    by (simp add: pieces_def)
  ultimately show ?thesis
    using bc atoi_value_no_number by blast
qed

theorem discrete_bounds_write_witness:
  "bound_check 2 ''1|2|3'' = Inr 0 \<and> bound_check 4 ''1|2|3'' = Inr (- 1)
   \<and> replace_value 4 ''REG2'' default_regs = Inr (- 1, default_regs)"
proof -
  have h1: "print_bounds ''REG2'' default_regs = Some ''1|2|3''" by code_simp
  have h2: "discrete_shape ''1|2|3''" by code_simp
  have p: "pieces CHR ''|'' ''1|2|3'' = [''1'', ''2'', ''3'']" by code_simp
  have v: "atoi_value ''1'' = 1" "atoi_value ''2'' = 2" "atoi_value ''3'' = 3" by code_simp+
  have h3: "\<forall>p \<in> set (pieces CHR ''|'' ''1|2|3''). fits_int p"
    by (simp add: p fits_int_def v INT_MIN_def INT_MAX_def)
  show ?thesis
    using discrete_bounds_write [OF h1 h2 h3, of 2] discrete_bounds_write [OF h1 h2 h3, of 4]
    by (simp add: p v)
qed

subsection \<open>Continuous bounds\<close>

lemmas show_int_eval = show_int_def show_nat.simps digit_char_def

lemma show_int_nonneg: "0 \<le> i \<Longrightarrow> show_int i = show_nat (nat i)"
  by (simp add: show_int_def)

lemma show_int_chars: "c \<in> set (show_int i) \<Longrightarrow> isdigit c \<or> c = CHR ''-''"
  by (auto simp: show_int_def isdigit_show_nat split: if_splits)

lemma show_int_not_Nil: "show_int i \<noteq> []"
  by (simp add: show_int_def show_nat_not_Nil)

lemma show_int_token:
  "show_int i \<noteq> []" "CHR ''='' \<notin> set (show_int i)" "show_int i \<noteq> ''?''"
    "CHR ''|'' \<notin> set (show_int i)" "CHR ''+'' \<notin> set (show_int i)"
proof -
  show "show_int i \<noteq> []" by (rule show_int_not_Nil)
  show "CHR ''='' \<notin> set (show_int i)"
    using show_int_chars [of "CHR ''=''" i] by (auto simp: isdigit_def)
  show "CHR ''|'' \<notin> set (show_int i)"
    using show_int_chars [of "CHR ''|''" i] by (auto simp: isdigit_def)
  show "CHR ''+'' \<notin> set (show_int i)"
    using show_int_chars [of "CHR ''+''" i] by (auto simp: isdigit_def)
  show "show_int i \<noteq> ''?''"
    using show_int_chars [of "CHR ''?''" i] by (auto simp: isdigit_def)
qed

lemma bound_check_printed_range:
  assumes "0 \<le> lo" "lo \<le> INT_MAX" "0 \<le> hi" "hi \<le> INT_MAX"
  shows "bound_check v (show_int lo @ ''-'' @ show_int hi)
           = Inr (if lo < v \<and> v < hi then 0 else - 1)"
proof -
  let ?b = "show_int lo @ ''-'' @ show_int hi"
  have nodash: "CHR ''-'' \<notin> set (show_int i)" if "0 \<le> i" for i
    using isdigit_show_nat [of "CHR ''-''" "nat i"] that
    by (auto simp: show_int_nonneg isdigit_def)
  have nd: "\<not> discrete_shape ?b"
    using show_int_token(4) by (simp add: discrete_shape_def)
  have t1: "strtok_scan ?b ''-'' = (Some (show_int lo), show_int hi)"
    using strtok_scan_token_delim [of "show_int lo" "''-''" "CHR ''-''" "show_int hi"]
      nodash [OF assms(1)] show_int_not_Nil by simp
  have t2: "strtok_scan (show_int hi) ''-'' = (Some (show_int hi), [])"
    using strtok_scan_token_end [of "show_int hi" "''-''"] nodash [OF assms(3)] show_int_not_Nil
    by simp
  have a1: "atoi (Some (show_int lo)) = Inr lo"
    using assms by (intro atoi_show_int) (simp_all add: INT_MIN_def)
  have a2: "atoi (Some (show_int hi)) = Inr hi"
    using assms by (intro atoi_show_int) (simp_all add: INT_MIN_def)
  show ?thesis
    using nd unfolding bound_check_def discrete_shape_def Let_def strtok_def
    by (simp only: option.case t1 t2 fst_conv snd_conv a1 a2 bind_result_def sum.case if_False
        split: if_splits) auto
qed

lemma process_atcommand_write_number:
  assumes n: "CHR ''+'' \<notin> set n" "CHR ''='' \<notin> set n"
    and v: "INT_MIN \<le> v" "v \<le> INT_MAX"
    and b: "print_bounds (''REG'' @ n) (regs s) = Some b"
    and c: "bound_check v b = Inr c"
  shows "process_atcommand s (''AT+REG'' @ n @ ''='' @ show_int v) =
     (if c \<noteq> - 1
      then Inr (s\<lparr>regs := write_first (''REG'' @ n) v (regs s)\<rparr>, ''OK'' @ [CHR 0x0A], 0)
      else Inr (s, ''InvalidInput'' @ [CHR 0x0A], 2))"
  by (simp only: process_atcommand_write [OF n show_int_token(1,2,3)] atoi_show_int [OF v]
      bind_result_def sum.case replace_value_present [OF b] c)
     simp

text \<open>
  C3 as stated: for every register with continuous bounds \<open>lo-hi\<close>, every value strictly
  between the two is accepted. It fails for a negative lower bound: \<^verbatim>\<open>strtok\<close> takes the
  sign of \<^verbatim>\<open>-5-10\<close> for a separator, the bounds are read as 5 and 10, and writing 0 is
  answered with \<^verbatim>\<open>InvalidInput\<close>.
\<close>

theorem negative_lower_bound_counterexample:
  "show_int (- 5) @ ''-'' @ show_int 10 = ''-5-10'' \<and> (- 5 :: int) < 0 \<and> (0 :: int) < 10
   \<and> bound_check 0 ''-5-10'' = Inr (- 1)
   \<and> process_atcommand
         \<lparr>regs = [\<lparr>regid = ''REG1'', regvalue = 1, bounds = ''-5-10''\<rparr>], numofregs = 1\<rparr>
         ''AT+REG1=0''
       = Inr (\<lparr>regs = [\<lparr>regid = ''REG1'', regvalue = 1, bounds = ''-5-10''\<rparr>], numofregs = 1\<rparr>,
              ''InvalidInput'' @ [CHR 0x0A], 2)"
  by code_simp

text \<open>
  C3, amended: for a register whose bounds are \<open>lo-hi\<close> with \<open>lo\<close> and \<open>hi\<close> printed in
  decimal, both at least 0 and at most \<^verbatim>\<open>INT_MAX\<close>, writing \<open>lo\<close> and writing \<open>hi\<close> are
  answered with \<^verbatim>\<open>InvalidInput\<close> and leave the state as it is, writing a value strictly
  between them is answered with \<^verbatim>\<open>OK\<close> and stores it, and the bounds check accepts
  exactly the values with \<open>lo < v < hi\<close>.
\<close>

theorem continuous_bounds_write:
  assumes "0 \<le> lo" "lo \<le> INT_MAX" "0 \<le> hi" "hi \<le> INT_MAX"
    and "CHR ''+'' \<notin> set n" "CHR ''='' \<notin> set n"
    and "print_bounds (''REG'' @ n) (regs s) = Some (show_int lo @ ''-'' @ show_int hi)"
  shows "process_atcommand s (''AT+REG'' @ n @ ''='' @ show_int lo)
           = Inr (s, ''InvalidInput'' @ [CHR 0x0A], 2)
     \<and> process_atcommand s (''AT+REG'' @ n @ ''='' @ show_int hi)
           = Inr (s, ''InvalidInput'' @ [CHR 0x0A], 2)
     \<and> (lo < v \<and> v < hi \<longrightarrow>
          process_atcommand s (''AT+REG'' @ n @ ''='' @ show_int v)
            = Inr (s\<lparr>regs := write_first (''REG'' @ n) v (regs s)\<rparr>, ''OK'' @ [CHR 0x0A], 0))
     \<and> (\<forall>w. bound_check w (show_int lo @ ''-'' @ show_int hi)
              = Inr (if lo < w \<and> w < hi then 0 else - 1))"
proof -
  note bc = bound_check_printed_range [OF assms(1-4)]
  have lo: "process_atcommand s (''AT+REG'' @ n @ ''='' @ show_int lo)
              = Inr (s, ''InvalidInput'' @ [CHR 0x0A], 2)"
    using process_atcommand_write_number [OF assms(5,6) _ _ assms(7) bc [of lo]] assms(1,2)
    by (simp add: INT_MIN_def)
  have hi: "process_atcommand s (''AT+REG'' @ n @ ''='' @ show_int hi)
              = Inr (s, ''InvalidInput'' @ [CHR 0x0A], 2)"
    using process_atcommand_write_number [OF assms(5,6) _ _ assms(7) bc [of hi]] assms(3,4)
    by (simp add: INT_MIN_def)
  have mid: "process_atcommand s (''AT+REG'' @ n @ ''='' @ show_int v)
            = Inr (s\<lparr>regs := write_first (''REG'' @ n) v (regs s)\<rparr>, ''OK'' @ [CHR 0x0A], 0)"
    if "lo < v" "v < hi"
    using process_atcommand_write_number [OF assms(5,6) _ _ assms(7) bc [of v]] that assms(1,4)
    by (simp add: INT_MIN_def)
  show ?thesis
  proof (intro conjI impI allI)
    show "process_atcommand s (''AT+REG'' @ n @ ''='' @ show_int lo)
            = Inr (s, ''InvalidInput'' @ [CHR 0x0A], 2)"
      by (rule lo)
    show "process_atcommand s (''AT+REG'' @ n @ ''='' @ show_int hi)
            = Inr (s, ''InvalidInput'' @ [CHR 0x0A], 2)"
      by (rule hi)
    show "process_atcommand s (''AT+REG'' @ n @ ''='' @ show_int v)
            = Inr (s\<lparr>regs := write_first (''REG'' @ n) v (regs s)\<rparr>, ''OK'' @ [CHR 0x0A], 0)"
      if "lo < v \<and> v < hi"
      using that by (intro mid) simp_all
    show "bound_check w (show_int lo @ ''-'' @ show_int hi)
            = Inr (if lo < w \<and> w < hi then 0 else - 1)" for w
      by (rule bc)
  qed
qed

theorem continuous_bounds_write_witness:
  "process_atcommand loop_entry ''AT+REG1=0'' = Inr (loop_entry, ''InvalidInput'' @ [CHR 0x0A], 2)
   \<and> process_atcommand loop_entry ''AT+REG1=16535''
       = Inr (loop_entry, ''InvalidInput'' @ [CHR 0x0A], 2)
   \<and> process_atcommand loop_entry ''AT+REG1=7''
       = Inr (loop_entry\<lparr>regs := write_first ''REG1'' 7 (regs loop_entry)\<rparr>, ''OK'' @ [CHR 0x0A], 0)"
proof -
  have p: "show_int 0 = ''0''" "show_int 16535 = ''16535''" "show_int 7 = ''7''"
    by (simp_all add: show_int_eval)
  have h: "print_bounds (''REG'' @ ''1'') (regs loop_entry) = Some (show_int 0 @ ''-'' @ show_int 16535)"
    by (simp add: p loop_entry_def default_regs_def)
  have r: "(0::int) \<le> 0" "(0::int) \<le> INT_MAX" "(0::int) \<le> 16535" "16535 \<le> INT_MAX"
    by (simp_all add: INT_MAX_def)
  have c: "CHR ''+'' \<notin> set ''1''" "CHR ''='' \<notin> set ''1''"
    by simp_all
  show ?thesis
    using continuous_bounds_write [OF r c h, of 7] by (simp add: p)
qed

subsection \<open>Writes\<close>

text \<open>
  C4: a write looks the register up. With no register of that id \<^verbatim>\<open>replace_value\<close>
  returns -2 and the answer is \<^verbatim>\<open>INVALID REGISTER\<close>; with a register whose bounds check
  rejects the value it returns -1, the answer is \<^verbatim>\<open>InvalidInput\<close> and the list is as
  before; with a register whose bounds check accepts the value it returns 0, the answer is
  \<^verbatim>\<open>OK\<close> and the register holds the written value. The first three lines are about the
  list alone, for any id; the rest is the request \<^verbatim>\<open>AT+REG<n>=<tok>\<close> whose token
  \<^verbatim>\<open>atoi\<close> reads as \<open>v\<close>.
\<close>

theorem write_outcomes:
  assumes "CHR ''+'' \<notin> set n" "CHR ''='' \<notin> set n"
    and "tok \<noteq> []" "CHR ''='' \<notin> set tok" "tok \<noteq> ''?''"
    and "atoi (Some tok) = Inr v"
  shows
    "(targetid \<notin> regid ` set rs \<longrightarrow> replace_value v targetid rs = Inr (- 2, rs))
   \<and> (\<forall>b. print_bounds targetid rs = Some b \<and> bound_check v b = Inr (- 1) \<longrightarrow>
          replace_value v targetid rs = Inr (- 1, rs))
   \<and> (\<forall>b. print_bounds targetid rs = Some b \<and> bound_check v b = Inr 0 \<longrightarrow>
          replace_value v targetid rs = Inr (0, write_first targetid v rs)
        \<and> print_register targetid (write_first targetid v rs) = v)
   \<and> (''REG'' @ n \<notin> regid ` set (regs s) \<longrightarrow>
          process_atcommand s (''AT+REG'' @ n @ ''='' @ tok)
            = Inr (s, ''INVALID REGISTER'' @ [CHR 0x0A], 1))
   \<and> (\<forall>b. print_bounds (''REG'' @ n) (regs s) = Some b \<and> bound_check v b = Inr (- 1) \<longrightarrow>
          process_atcommand s (''AT+REG'' @ n @ ''='' @ tok)
            = Inr (s, ''InvalidInput'' @ [CHR 0x0A], 2))
   \<and> (\<forall>b. print_bounds (''REG'' @ n) (regs s) = Some b \<and> bound_check v b = Inr 0 \<longrightarrow>
          process_atcommand s (''AT+REG'' @ n @ ''='' @ tok)
            = Inr (s\<lparr>regs := write_first (''REG'' @ n) v (regs s)\<rparr>, ''OK'' @ [CHR 0x0A], 0))"
proof (intro conjI impI allI)
  assume "targetid \<notin> regid ` set rs"
  then show "replace_value v targetid rs = Inr (- 2, rs)"
    by (rule replace_value_absent)
next
  fix b assume "print_bounds targetid rs = Some b \<and> bound_check v b = Inr (- 1)"
  then show "replace_value v targetid rs = Inr (- 1, rs)"
    by (simp add: replace_value_present bind_result_def)
next
  fix b assume a: "print_bounds targetid rs = Some b \<and> bound_check v b = Inr 0"
  then show "replace_value v targetid rs = Inr (0, write_first targetid v rs)"
    by (simp add: replace_value_present bind_result_def)
  from a have "print_bounds targetid rs \<noteq> None" by simp
  then have "targetid \<in> regid ` set rs"
    by (simp add: print_bounds_None)
  then show "print_register targetid (write_first targetid v rs) = v"
    by (rule print_register_write_first)
next
  note parse = process_atcommand_write [OF assms(1-5), of s]
  {
    assume "''REG'' @ n \<notin> regid ` set (regs s)"
    then have "replace_value v (''REG'' @ n) (regs s) = Inr (- 2, regs s)"
      by (rule replace_value_absent)
    then show "process_atcommand s (''AT+REG'' @ n @ ''='' @ tok)
                 = Inr (s, ''INVALID REGISTER'' @ [CHR 0x0A], 1)"
      by (simp only: parse assms(6) bind_result_def sum.case prod.case) simp
  next
    fix b assume "print_bounds (''REG'' @ n) (regs s) = Some b \<and> bound_check v b = Inr (- 1)"
    then have "replace_value v (''REG'' @ n) (regs s) = Inr (- 1, regs s)"
      by (simp add: replace_value_present bind_result_def)
    then show "process_atcommand s (''AT+REG'' @ n @ ''='' @ tok)
                 = Inr (s, ''InvalidInput'' @ [CHR 0x0A], 2)"
      by (simp only: parse assms(6) bind_result_def sum.case prod.case) simp
  next
    fix b assume "print_bounds (''REG'' @ n) (regs s) = Some b \<and> bound_check v b = Inr 0"
    then have "replace_value v (''REG'' @ n) (regs s)
                 = Inr (0, write_first (''REG'' @ n) v (regs s))"
      by (simp add: replace_value_present bind_result_def)
    then show "process_atcommand s (''AT+REG'' @ n @ ''='' @ tok)
                 = Inr (s\<lparr>regs := write_first (''REG'' @ n) v (regs s)\<rparr>, ''OK'' @ [CHR 0x0A], 0)"
      by (simp only: parse assms(6) bind_result_def sum.case prod.case) simp
  }
qed

theorem write_outcomes_witness:
  "replace_value 2 ''REG2'' default_regs = Inr (0, write_first ''REG2'' 2 default_regs)
   \<and> print_register ''REG2'' (write_first ''REG2'' 2 default_regs) = 2
   \<and> process_atcommand loop_entry ''AT+REG2=2''
       = Inr (loop_entry\<lparr>regs := write_first ''REG2'' 2 (regs loop_entry)\<rparr>, ''OK'' @ [CHR 0x0A], 0)
   \<and> process_atcommand loop_entry ''AT+REG9=2''
       = Inr (loop_entry, ''INVALID REGISTER'' @ [CHR 0x0A], 1)"
proof -
  have c: "CHR ''+'' \<notin> set ''2''" "CHR ''='' \<notin> set ''2''" "''2'' \<noteq> []"
    "CHR ''='' \<notin> set ''2''" "''2'' \<noteq> ''?''"
    "CHR ''+'' \<notin> set ''9''" "CHR ''='' \<notin> set ''9''"
    by simp_all
  have a: "atoi (Some ''2'') = Inr 2" by code_simp
  have b: "print_bounds ''REG2'' default_regs = Some ''1|2|3''"
    "print_bounds ''REG2'' (regs loop_entry) = Some ''1|2|3''"
    "bound_check 2 ''1|2|3'' = Inr 0"
    by code_simp+
  have absent: "''REG9'' \<notin> regid ` set (regs loop_entry)"
    by (simp add: loop_entry_def default_regs_def)
  show ?thesis
    using write_outcomes [OF c(1,2,3,4,5) a, of "''REG2''" default_regs loop_entry]
      write_outcomes [OF c(6,7,3,4,5) a, of "''REG2''" default_regs loop_entry]
      b absent
    by simp
qed

subsection \<open>What one turn of the loop does to the list\<close>

lemma loop_entry_reachable: "reachable loop_entry"
  unfolding loop_entry_def by (rule reachable_default)

lemma add_register_result:
  "add_register v b s = Inr s' \<Longrightarrow>
   regs s \<noteq> [] \<and>
   s' = \<lparr>regs = regs s @ [\<lparr>regid = ''REG'' @ show_int (numofregs s + 1), regvalue = v, bounds = b\<rparr>],
         numofregs = numofregs s + 1\<rparr>"
  by (auto simp: add_register_def Let_def split: if_splits)

lemma show_nat_length: "n < 100 \<Longrightarrow> length (show_nat n) \<le> 2"
proof (cases "n < 10")
  case True
  then show ?thesis by (simp add: show_nat_small)
next
  case False
  assume "n < 100"
  then have "n div 10 < 10" by simp
  with False show ?thesis by (simp add: show_nat_big show_nat_small)
qed

lemma add_register_fits:
  assumes "regs s \<noteq> []" and "0 \<le> numofregs s" and "numofregs s < 99"
    and "length b < BOUNDS_MAX"
  shows "add_register v b s =
     Inr \<lparr>regs = regs s @ [\<lparr>regid = ''REG'' @ show_int (numofregs s + 1), regvalue = v, bounds = b\<rparr>],
          numofregs = numofregs s + 1\<rparr>"
proof -
  from assms(2,3) have "nat (numofregs s + 1) < 100" by simp
  from show_nat_length [OF this] assms(2)
  have "length (show_int (numofregs s + 1)) \<le> 2"
    by (simp add: show_int_def)
  with assms(1,4) show ?thesis
    by (simp add: add_register_def Let_def REGID_MAX_def)
qed

lemma process_insertion_result:
  "process_insertion request s = Inr s' \<Longrightarrow> \<exists>v b. add_register v b s = Inr s'"
  by (auto simp: process_insertion_def Let_def bind_result_def split: sum.splits option.splits)

lemma replace_value_keeps:
  "replace_value v targetid rs = Inr (code, rs') \<Longrightarrow>
   map regid rs' = map regid rs \<and> map bounds rs' = map bounds rs"
proof (induction rs arbitrary: code rs')
  case Nil
  then show ?case by simp
next
  case (Cons r rs)
  show ?case
  proof (cases "regid r = targetid")
    case True
    with Cons.prems show ?thesis
      by (auto simp: bind_result_def split: sum.splits if_splits)
  next
    case False
    with Cons.prems obtain c rs0 where
      rec: "replace_value v targetid rs = Inr (c, rs0)" and out: "rs' = r # rs0"
      by (auto simp: bind_result_def split: sum.splits)
    from Cons.IH [OF rec] out show ?thesis by simp
  qed
qed

lemma process_atcommand_keeps:
  assumes "process_atcommand s request = Inr (s', response, code)"
  shows "numofregs s' = numofregs s \<and> map regid (regs s') = map regid (regs s)
         \<and> map bounds (regs s') = map bounds (regs s)"
proof (cases "strncmp_eq request ''AT+REG'' 6")
  case False
  with assms show ?thesis by (simp add: process_atcommand_def)
next
  case True
  have keep: "numofregs (s\<lparr>regs := rs'\<rparr>) = numofregs s
      \<and> map regid (regs (s\<lparr>regs := rs'\<rparr>)) = map regid (regs s)
      \<and> map bounds (regs (s\<lparr>regs := rs'\<rparr>)) = map bounds (regs s)"
    if "replace_value v targetid (regs s) = Inr (c, rs')" for v targetid c rs'
    using replace_value_keeps [OF that] by simp
  from assms True show ?thesis
    unfolding process_atcommand_def Let_def bind_result_def
    by (auto split: option.splits if_splits sum.splits prod.splits dest!: keep)
qed

lemma ids_in_order_add:
  assumes "ids_in_order s" and "add_register v b s = Inr s'"
  shows "ids_in_order s'"
proof -
  from add_register_result [OF assms(2)] have
    s': "s' = \<lparr>regs = regs s @ [\<lparr>regid = ''REG'' @ show_int (numofregs s + 1), regvalue = v, bounds = b\<rparr>],
              numofregs = numofregs s + 1\<rparr>"
    by simp
  from assms(1) have n: "numofregs s = int (length (regs s))"
    and m: "map regid (regs s) = map (\<lambda>i. ''REG'' @ show_int (int i + 1)) [0..<length (regs s)]"
    by (simp_all add: ids_in_order_def)
  from n m show ?thesis
    by (simp add: ids_in_order_def s')
qed

lemma ids_in_order_keep:
  assumes "ids_in_order s" and "numofregs s' = numofregs s"
    and "map regid (regs s') = map regid (regs s)"
  shows "ids_in_order s'"
proof -
  from assms(3) have "length (map regid (regs s')) = length (map regid (regs s))" by simp
  then have l: "length (regs s') = length (regs s)" by simp
  with assms(1) have "regs s' \<noteq> []" by (auto simp: ids_in_order_def)
  with assms l show ?thesis by (simp add: ids_in_order_def)
qed

lemma main_loop_body_cases:
  assumes "main_loop_body s request = Inr (s', response, fin)"
  shows "(strncmp_eq request ''insert'' 6 \<and> (\<exists>v b. add_register v b s = Inr s')
            \<and> response = ''INSERTION COMPLETE'' @ [CHR 0x0A] \<and> \<not> fin)
       \<or> (\<not> strncmp_eq request ''insert'' 6 \<and> numofregs s' = numofregs s
            \<and> map regid (regs s') = map regid (regs s)
            \<and> map bounds (regs s') = map bounds (regs s))"
proof (cases "strncmp_eq request ''insert'' 6")
  case True
  with assms obtain s0 where "process_insertion request s = Inr s0" and "s' = s0"
    and "response = ''INSERTION COMPLETE'' @ [CHR 0x0A]" and "\<not> fin"
    by (auto simp: main_loop_body_def bind_result_def split: sum.splits)
  with process_insertion_result [of request s s'] True show ?thesis by simp
next
  case False
  show ?thesis
  proof (cases "strncmp_eq request ''quit'' 4")
    case True
    with False assms show ?thesis by (simp add: main_loop_body_def)
  next
    case nq: False
    with False assms obtain code where "process_atcommand s request = Inr (s', response, code)"
      by (auto simp: main_loop_body_def bind_result_def split: sum.splits)
    from process_atcommand_keeps [OF this] False show ?thesis by simp
  qed
qed

lemma ids_in_order_turn:
  assumes "ids_in_order s" and "main_loop_body s request = Inr (s', response, fin)"
  shows "ids_in_order s'"
  using main_loop_body_cases [OF assms(2)] assms(1)
  by (auto intro: ids_in_order_add ids_in_order_keep)

lemma reachable_ids_in_order: "reachable s \<Longrightarrow> ids_in_order s"
proof (induction rule: reachable.induct)
  case (start s)
  then have "s = \<lparr>regs = default_regs, numofregs = 2\<rparr>"
    by (simp add: main_init_value)
  then show ?case
    by (simp add: ids_in_order_def default_regs_def show_int_eval)
next
  case (turn s request s' response)
  then show ?case by (auto intro: ids_in_order_turn)
qed

lemma show_int_inj: "show_int i = show_int j \<Longrightarrow> i = j"
proof -
  assume "show_int i = show_int j"
  then have "atoi_value (show_int i) = atoi_value (show_int j)"
    by (rule arg_cong)
  then show "i = j"
    by (simp only: atoi_value_show_int)
qed

lemma ids_in_order_distinct:
  assumes "ids_in_order s"
  shows "distinct (map regid (regs s))"
proof -
  have "inj_on (\<lambda>i. ''REG'' @ show_int (int i + 1)) (set [0..<length (regs s)])"
  proof (rule inj_onI)
    fix i j :: nat
    assume "''REG'' @ show_int (int i + 1) = ''REG'' @ show_int (int j + 1)"
    then have "show_int (int i + 1) = show_int (int j + 1)" by simp
    then have "int i + 1 = int j + 1" by (rule show_int_inj)
    then show "i = j" by simp
  qed
  then have "distinct (map (\<lambda>i. ''REG'' @ show_int (int i + 1)) [0..<length (regs s)])"
    by (simp add: distinct_map)
  with assms show ?thesis by (simp add: ids_in_order_def)
qed


subsection \<open>The tokens of an insertion\<close>

lemma insertion_tokens:
  assumes "vt \<noteq> []" "CHR ''+'' \<notin> set vt" "b \<noteq> []" "CHR ''+'' \<notin> set b"
  shows "strtok_scan (''insert+'' @ vt @ ''+'' @ b) ''+'' = (Some ''insert'', vt @ ''+'' @ b)"
    and "strtok_scan (vt @ ''+'' @ b) ''+'' = (Some vt, b)"
    and "strtok_scan b ''+'' = (Some b, [])"
proof -
  show "strtok_scan (''insert+'' @ vt @ ''+'' @ b) ''+'' = (Some ''insert'', vt @ ''+'' @ b)"
    using strtok_scan_token_delim [of "''insert''" "''+''" "CHR ''+''" "vt @ ''+'' @ b"] by simp
  show "strtok_scan (vt @ ''+'' @ b) ''+'' = (Some vt, b)"
    using strtok_scan_token_delim [of vt "''+''" "CHR ''+''" b] assms(1,2) by simp
  show "strtok_scan b ''+'' = (Some b, [])"
    using strtok_scan_token_end [of b "''+''"] assms(3,4) by simp
qed

lemma process_insertion_tokens:
  assumes "vt \<noteq> []" "CHR ''+'' \<notin> set vt" "b \<noteq> []" "CHR ''+'' \<notin> set b"
  shows "process_insertion (''insert+'' @ vt @ ''+'' @ b) s
           = bind_result (atoi (Some vt)) (\<lambda>reg_value. add_register reg_value b s)"
  unfolding process_insertion_def Let_def strtok_def
  by (simp only: option.case insertion_tokens [OF assms] fst_conv snd_conv)

lemma main_loop_body_insert:
  "main_loop_body s (''insert+'' @ r) =
     bind_result (process_insertion (''insert+'' @ r) s)
       (\<lambda>s'. Inr (s', ''INSERTION COMPLETE'' @ [CHR 0x0A], False))"
  by (simp add: main_loop_body_def strncmp_eq_def)

lemma process_insertion_pieces:
  assumes "pieces CHR ''+'' r = p1 # p2 # p3 # ps"
  shows "process_insertion r s = bind_result (atoi (Some p2)) (\<lambda>reg_value. add_register reg_value p3 s)"
proof -
  let ?r1 = "snd (strtok_scan r ''+'')"
  let ?r2 = "snd (strtok_scan ?r1 ''+'')"
  have r1: "pieces CHR ''+'' ?r1 = p2 # p3 # ps"
    using strtok_scan_rest [of "CHR ''+''" r] assms by simp
  have t2: "fst (strtok_scan ?r1 ''+'') = Some p2"
    using strtok_scan_pieces [of ?r1 "CHR ''+''"] r1
    by (metis (no_types, lifting) fst_conv list.simps(5))
  have r2: "pieces CHR ''+'' ?r2 = p3 # ps"
    using strtok_scan_rest [of "CHR ''+''" ?r1] r1 by simp
  have t3: "fst (strtok_scan ?r2 ''+'') = Some p3"
    using strtok_scan_pieces [of ?r2 "CHR ''+''"] r2
    by (metis (no_types, lifting) fst_conv list.simps(5))
  show ?thesis
    unfolding process_insertion_def Let_def strtok_def
    by (simp only: option.case t2 t3)
qed

lemma insert_request_served:
  assumes "reachable s" and "numofregs s < 99"
    and "vt \<noteq> []" "CHR ''+'' \<notin> set vt" "fits_int vt"
    and "b \<noteq> []" "CHR ''+'' \<notin> set b" "length b < BOUNDS_MAX"
  shows "main_loop_body s (''insert+'' @ vt @ ''+'' @ b)
           = Inr (\<lparr>regs = regs s @
                     [\<lparr>regid = ''REG'' @ show_int (numofregs s + 1),
                       regvalue = atoi_value vt, bounds = b\<rparr>],
                   numofregs = numofregs s + 1\<rparr>,
                  ''INSERTION COMPLETE'' @ [CHR 0x0A], False)"
proof -
  from assms(1) have inv: "ids_in_order s" by (rule reachable_ids_in_order)
  then have ne: "regs s \<noteq> []" and n0: "0 \<le> numofregs s"
    by (simp_all add: ids_in_order_def)
  note add = add_register_fits [OF ne n0 assms(2,8)]
  show ?thesis
    by (simp only: main_loop_body_insert process_insertion_tokens [OF assms(3,4,6,7)]
        atoi_fits [OF assms(5)] bind_result_def sum.case add)
qed

lemma insert_request_overflow:
  assumes "numofregs s = 99"
    and "vt \<noteq> []" "CHR ''+'' \<notin> set vt" "fits_int vt"
    and "b \<noteq> []" "CHR ''+'' \<notin> set b"
  shows "main_loop_body s (''insert+'' @ vt @ ''+'' @ b) = Inl BufferOverflow"
proof -
  have "show_int 100 = ''100''" by (simp add: show_int_eval)
  then have add: "add_register v b s = Inl BufferOverflow" for v
    using assms(1) by (simp add: add_register_def Let_def REGID_MAX_def)
  show ?thesis
    by (simp only: main_loop_body_insert process_insertion_tokens [OF assms(2,3,5,6)]
        atoi_fits [OF assms(4)] bind_result_def sum.case add)
qed

lemma filled_two: "filled 2 = loop_entry"
  by (simp add: filled_def loop_entry_def)

lemma filled_insert:
  assumes "2 \<le> k" and "k < 99" and "reachable (filled k)"
  shows "main_loop_body (filled k) ''insert+0+0-10''
           = Inr (filled (Suc k), ''INSERTION COMPLETE'' @ [CHR 0x0A], False)"
proof -
  have tok: "''0'' \<noteq> []" "CHR ''+'' \<notin> set ''0''" "fits_int ''0''"
    "''0-10'' \<noteq> []" "CHR ''+'' \<notin> set ''0-10''" "length ''0-10'' < BOUNDS_MAX"
    by (simp_all add: fits_int_def atoi_value_def digits_value_def isspace_def isdigit_def
        digit_value_def INT_MIN_def INT_MAX_def BOUNDS_MAX_def)
  have z: "atoi_value ''0'' = 0"
    by (simp add: atoi_value_def digits_value_def isspace_def isdigit_def digit_value_def)
  from assms(2) have n: "numofregs (filled k) < 99"
    by (simp add: filled_def)
  have "main_loop_body (filled k) (''insert+'' @ ''0'' @ ''+'' @ ''0-10'')
      = Inr (\<lparr>regs = regs (filled k) @
                [\<lparr>regid = ''REG'' @ show_int (numofregs (filled k) + 1),
                  regvalue = atoi_value ''0'', bounds = ''0-10''\<rparr>],
              numofregs = numofregs (filled k) + 1\<rparr>,
             ''INSERTION COMPLETE'' @ [CHR 0x0A], False)"
    by (rule insert_request_served [OF assms(3) n tok])
  moreover have "\<lparr>regs = regs (filled k) @
                [\<lparr>regid = ''REG'' @ show_int (numofregs (filled k) + 1),
                  regvalue = atoi_value ''0'', bounds = ''0-10''\<rparr>],
              numofregs = numofregs (filled k) + 1\<rparr> = filled (Suc k)"
    using assms(1) by (simp add: filled_def z)
  ultimately show ?thesis by simp
qed

lemma filled_reachable: "2 \<le> k \<Longrightarrow> k \<le> 99 \<Longrightarrow> reachable (filled k)"
proof (induction k rule: dec_induct)
  case base
  show ?case by (simp add: filled_two loop_entry_reachable)
next
  case (step n)
  then have r: "reachable (filled n)" and n: "n < 99" by simp_all
  from reachable.turn [OF r filled_insert [OF step.hyps(1) n r]] show ?case .
qed

subsection \<open>The id buffer\<close>

text \<open>
  C5: the claim asks that every insert in every reachable state assigns the id \<^verbatim>\<open>REG\<close>
  with the count plus one, the ids staying unique with none skipped. The state with the
  99 registers \<^verbatim>\<open>REG1\<close> to \<^verbatim>\<open>REG99\<close> is reachable (97 requests \<^verbatim>\<open>insert+0+0-10\<close>
  after the start). The next insert has to build \<^verbatim>\<open>REG100\<close>, seven bytes with its NUL,
  in the \<^verbatim>\<open>REGID_MAX\<close> = 6 bytes of \<^verbatim>\<open>tempid\<close> and of \<^verbatim>\<open>regid\<close>: \<^verbatim>\<open>strcat\<close> writes past
  the array, and no id \<^verbatim>\<open>REG100\<close> is assigned by defined behaviour.
\<close>

theorem id_buffer_overflow:
  "reachable (filled 99) \<and> numofregs (filled 99) = 99 \<and> length (regs (filled 99)) = 99
   \<and> map regid (regs (filled 99)) = map (\<lambda>i. ''REG'' @ show_int (int i + 1)) [0..<99]
   \<and> ''REG'' @ show_int (numofregs (filled 99) + 1) = ''REG100''
   \<and> REGID_MAX \<le> length ''REG100''
   \<and> add_register 0 ''0-10'' (filled 99) = Inl BufferOverflow
   \<and> main_loop_body (filled 99) ''insert+0+0-10'' = Inl BufferOverflow"
proof -
  have r: "reachable (filled 99)"
    by (rule filled_reachable) simp_all
  have n: "numofregs (filled 99) = 99"
    by (simp add: filled_def)
  have l: "length (regs (filled 99)) = 99"
    by (simp add: filled_def default_regs_def)
  from reachable_ids_in_order [OF r] l
  have m: "map regid (regs (filled 99)) = map (\<lambda>i. ''REG'' @ show_int (int i + 1)) [0..<99]"
    by (simp add: ids_in_order_def)
  have id: "''REG'' @ show_int (numofregs (filled 99) + 1) = ''REG100''"
    by (simp add: n show_int_eval)
  have cap: "REGID_MAX \<le> length ''REG100''"
    by (simp add: REGID_MAX_def)
  have "show_int 100 = ''100''" by (simp add: show_int_eval)
  then have add: "add_register 0 ''0-10'' (filled 99) = Inl BufferOverflow"
    by (simp add: add_register_def Let_def REGID_MAX_def n)
  have tok: "''0'' \<noteq> []" "CHR ''+'' \<notin> set ''0''" "fits_int ''0''"
    "''0-10'' \<noteq> []" "CHR ''+'' \<notin> set ''0-10''"
    by (simp_all add: fits_int_def atoi_value_def digits_value_def isspace_def isdigit_def
        digit_value_def INT_MIN_def INT_MAX_def)
  from insert_request_overflow [OF n tok]
  have ml: "main_loop_body (filled 99) ''insert+0+0-10'' = Inl BufferOverflow"
    by simp
  from r n l m id cap add ml show ?thesis
    by (intro conjI)
qed

subsection \<open>Insertion\<close>




subsection \<open>The loop, and the bounds string of an inserted register\<close>





lemma main_loop_reachable:
  "reachable s \<Longrightarrow> main_loop s requests = Inr (s2, responses, False) \<Longrightarrow> reachable s2"
proof (induction requests arbitrary: s s2 responses)
  case Nil
  then show ?case by simp
next
  case (Cons request requests)
  from Cons.prems(2) obtain s1 response fin1 where
    body: "main_loop_body s request = Inr (s1, response, fin1)"
    by (auto simp: bind_result_def split: sum.splits)
  from Cons.prems(2) body have nf: "\<not> fin1"
    by (auto simp: bind_result_def split: if_splits)
  with Cons.prems(2) body obtain responses' where
    rest: "main_loop s1 requests = Inr (s2, responses', False)"
    by (auto simp: bind_result_def split: sum.splits)
  from Cons.prems(1) body nf have "reachable s1"
    by (auto intro: reachable.turn)
  from Cons.IH [OF this rest] show ?case .
qed





subsection \<open>Facts about the three register commands\<close>

lemma write_command_absent:
  "targetid \<notin> regid ` set (regs s) \<Longrightarrow>
   write_command s targetid v = Inr (s, ''INVALID REGISTER'' @ [CHR 0x0A], 1)"
  by (simp add: write_command_def replace_value_absent bind_result_def)

lemma write_command_present:
  "print_bounds targetid (regs s) = Some b \<Longrightarrow>
   write_command s targetid v =
     bind_result (bound_check v b)
       (\<lambda>c. if c \<noteq> - 1
            then Inr (s\<lparr>regs := write_first targetid v (regs s)\<rparr>, ''OK'' @ [CHR 0x0A], 0)
            else Inr (s, ''InvalidInput'' @ [CHR 0x0A], 2))"
  by (cases "bound_check v b")
     (simp_all add: write_command_def replace_value_present bind_result_def)

lemma read_command_code: "read_command s targetid = Inr (s', response, code) \<Longrightarrow> code \<noteq> 3"
  by (auto simp: read_command_def Let_def split: if_splits)

lemma readbounds_command_code:
  "readbounds_command s targetid = Inr (s', response, code) \<Longrightarrow> code \<noteq> 3"
  by (auto simp: readbounds_command_def split: option.splits)

lemma write_command_code:
  "write_command s targetid v = Inr (s', response, code) \<Longrightarrow>
   code \<noteq> 3 \<and> response \<noteq> ''INVALID AT-COMMAND'' @ [CHR 0x0A]"
  by (auto simp: write_command_def bind_result_def split: sum.splits prod.splits if_splits)

lemma process_atcommand_write_command:
  assumes "CHR ''+'' \<notin> set n" "CHR ''='' \<notin> set n"
    and "tok \<noteq> []" "CHR ''='' \<notin> set tok" "tok \<noteq> ''?''"
  shows "process_atcommand s (''AT+REG'' @ n @ ''='' @ tok)
           = bind_result (atoi (Some tok)) (write_command s (''REG'' @ n))"
proof -
  have w: "write_command s (''REG'' @ n) =
     (\<lambda>requested_value.
        bind_result (replace_value requested_value (''REG'' @ n) (regs s))
          (\<lambda>(value_swap_check, rs').
             if value_swap_check = - 2
             then Inr (s\<lparr>regs := rs'\<rparr>, ''INVALID REGISTER'' @ [CHR 0x0A], 1)
             else if value_swap_check = - 1
             then Inr (s\<lparr>regs := rs'\<rparr>, ''InvalidInput'' @ [CHR 0x0A], 2)
             else Inr (s\<lparr>regs := rs'\<rparr>, ''OK'' @ [CHR 0x0A], 0)))"
    by (rule ext) (simp only: write_command_def)
  show ?thesis
    by (simp only: process_atcommand_write [OF assms] w)
qed

subsection \<open>The value token of a write\<close>

text \<open>
  C8 as stated: a token after \<^verbatim>\<open>=\<close> that is neither \<^verbatim>\<open>?\<close> nor an integer literal makes
  the request a write of 0. It fails for \<^verbatim>\<open>AT+REG1=12abc\<close>: \<^verbatim>\<open>atoi\<close> reads 12, the
  register takes 12 and the answer is \<^verbatim>\<open>OK\<close>, where a write of 0 is answered with
  \<^verbatim>\<open>InvalidInput\<close>.
\<close>

theorem lenient_token_counterexample:
  "\<not> is_integer ''12abc'' \<and> ''12abc'' \<noteq> ''?''
   \<and> process_atcommand loop_entry ''AT+REG1=12abc''
       = Inr (loop_entry\<lparr>regs := write_first ''REG1'' 12 (regs loop_entry)\<rparr>, ''OK'' @ [CHR 0x0A], 0)
   \<and> print_register ''REG1'' (write_first ''REG1'' 12 (regs loop_entry)) = 12
   \<and> process_atcommand loop_entry ''AT+REG1=0''
       = Inr (loop_entry, ''InvalidInput'' @ [CHR 0x0A], 2)"
  by code_simp

text \<open>
  C8, amended: a request \<^verbatim>\<open>AT+REG<n>=<tok>\<close> (the token not empty, without \<^verbatim>\<open>=\<close>, not
  \<^verbatim>\<open>?\<close>, its number within the range of \<^verbatim>\<open>int\<close>) is handled as the write to
  \<^verbatim>\<open>REG<n>\<close> of the number \<^verbatim>\<open>atoi\<close> reads from the token, which is the number the token
  starts with; it is the write of 0 when the token does not start with a number. It is
  never a parse error: with no such register the answer is \<^verbatim>\<open>INVALID REGISTER\<close>, and
  with the register the bounds check of that number decides between \<^verbatim>\<open>OK\<close>, storing
  it, and \<^verbatim>\<open>InvalidInput\<close>.
\<close>

theorem write_token_read_by_atoi:
  assumes "CHR ''+'' \<notin> set n" "CHR ''='' \<notin> set n"
    and "tok \<noteq> []" "CHR ''='' \<notin> set tok" "tok \<noteq> ''?''"
    and "fits_int tok"
  shows "process_atcommand s (''AT+REG'' @ n @ ''='' @ tok)
           = bind_result (replace_value (atoi_value tok) (''REG'' @ n) (regs s))
               (\<lambda>(value_swap_check, rs').
                  if value_swap_check = - 2
                  then Inr (s\<lparr>regs := rs'\<rparr>, ''INVALID REGISTER'' @ [CHR 0x0A], 1)
                  else if value_swap_check = - 1
                  then Inr (s\<lparr>regs := rs'\<rparr>, ''InvalidInput'' @ [CHR 0x0A], 2)
                  else Inr (s\<lparr>regs := rs'\<rparr>, ''OK'' @ [CHR 0x0A], 0))
     \<and> (''REG'' @ n \<notin> regid ` set (regs s) \<longrightarrow>
          process_atcommand s (''AT+REG'' @ n @ ''='' @ tok)
            = Inr (s, ''INVALID REGISTER'' @ [CHR 0x0A], 1))
     \<and> (\<forall>b. print_bounds (''REG'' @ n) (regs s) = Some b \<longrightarrow>
          process_atcommand s (''AT+REG'' @ n @ ''='' @ tok)
            = bind_result (bound_check (atoi_value tok) b)
                (\<lambda>c. if c \<noteq> - 1
                     then Inr (s\<lparr>regs := write_first (''REG'' @ n) (atoi_value tok) (regs s)\<rparr>,
                               ''OK'' @ [CHR 0x0A], 0)
                     else Inr (s, ''InvalidInput'' @ [CHR 0x0A], 2)))
     \<and> (\<forall>s' response code.
          process_atcommand s (''AT+REG'' @ n @ ''='' @ tok) = Inr (s', response, code) \<longrightarrow>
            code \<noteq> 3 \<and> response \<noteq> ''INVALID AT-COMMAND'' @ [CHR 0x0A])
     \<and> (\<not> starts_with_number tok \<longrightarrow> atoi_value tok = 0)"
proof -
  let ?req = "''AT+REG'' @ n @ ''='' @ tok"
  have w: "process_atcommand s ?req = write_command s (''REG'' @ n) (atoi_value tok)"
    by (simp only: process_atcommand_write_command [OF assms(1-5)] atoi_fits [OF assms(6)]
        bind_result_def sum.case)
  show ?thesis
  proof (intro conjI impI allI)
    show "process_atcommand s ?req
           = bind_result (replace_value (atoi_value tok) (''REG'' @ n) (regs s))
               (\<lambda>(value_swap_check, rs').
                  if value_swap_check = - 2
                  then Inr (s\<lparr>regs := rs'\<rparr>, ''INVALID REGISTER'' @ [CHR 0x0A], 1)
                  else if value_swap_check = - 1
                  then Inr (s\<lparr>regs := rs'\<rparr>, ''InvalidInput'' @ [CHR 0x0A], 2)
                  else Inr (s\<lparr>regs := rs'\<rparr>, ''OK'' @ [CHR 0x0A], 0))"
      by (simp only: w write_command_def)
  next
    assume a: "''REG'' @ n \<notin> regid ` set (regs s)"
    show "process_atcommand s ?req = Inr (s, ''INVALID REGISTER'' @ [CHR 0x0A], 1)"
      unfolding w by (rule write_command_absent [OF a])
  next
    fix b assume a: "print_bounds (''REG'' @ n) (regs s) = Some b"
    show "process_atcommand s ?req
            = bind_result (bound_check (atoi_value tok) b)
                (\<lambda>c. if c \<noteq> - 1
                     then Inr (s\<lparr>regs := write_first (''REG'' @ n) (atoi_value tok) (regs s)\<rparr>,
                               ''OK'' @ [CHR 0x0A], 0)
                     else Inr (s, ''InvalidInput'' @ [CHR 0x0A], 2))"
      unfolding w by (rule write_command_present [OF a])
  next
    fix s' response code
    assume "process_atcommand s ?req = Inr (s', response, code)"
    then have "write_command s (''REG'' @ n) (atoi_value tok) = Inr (s', response, code)"
      by (simp only: w)
    from write_command_code [OF this]
    show "code \<noteq> 3" and "response \<noteq> ''INVALID AT-COMMAND'' @ [CHR 0x0A]"
      by simp_all
  next
    assume "\<not> starts_with_number tok"
    then show "atoi_value tok = 0"
      by (rule atoi_value_no_number)
  qed
qed

theorem write_token_read_by_atoi_witness:
  "process_atcommand loop_entry ''AT+REG1=7x''
     = Inr (loop_entry\<lparr>regs := write_first ''REG1'' 7 (regs loop_entry)\<rparr>, ''OK'' @ [CHR 0x0A], 0)
   \<and> process_atcommand loop_entry ''AT+REG1=abc''
     = Inr (loop_entry, ''InvalidInput'' @ [CHR 0x0A], 2)
   \<and> atoi_value ''abc'' = 0"
proof -
  have c: "CHR ''+'' \<notin> set ''1''" "CHR ''='' \<notin> set ''1''"
    by simp_all
  have t1: "''7x'' \<noteq> []" "CHR ''='' \<notin> set ''7x''" "''7x'' \<noteq> ''?''"
    and t2: "''abc'' \<noteq> []" "CHR ''='' \<notin> set ''abc''" "''abc'' \<noteq> ''?''"
    by simp_all
  have f: "fits_int ''7x''" "fits_int ''abc''" by code_simp+
  have v: "atoi_value ''7x'' = 7" "atoi_value ''abc'' = 0" by code_simp+
  have nn: "\<not> starts_with_number ''abc''" by code_simp
  have pb: "print_bounds (''REG'' @ ''1'') (regs loop_entry) = Some ''0-16535''" by code_simp
  have bc: "bound_check 7 ''0-16535'' = Inr 0" "bound_check 0 ''0-16535'' = Inr (- 1)"
    by code_simp+
  note a = write_token_read_by_atoi [OF c t1 f(1), of loop_entry,
      THEN conjunct2, THEN conjunct2, THEN conjunct1, rule_format, OF pb]
  note b = write_token_read_by_atoi [OF c t2 f(2), of loop_entry,
      THEN conjunct2, THEN conjunct2, THEN conjunct1, rule_format, OF pb]
  from a b show ?thesis
    by (simp add: v bc bind_result_def)
qed

subsection \<open>Requests outside the grammar\<close>

lemma fst_strtok_scan:
  "fst (strtok_scan s [c]) = (case pieces c s of [] \<Rightarrow> None | p # ps \<Rightarrow> Some p)"
proof (cases "pieces c s")
  case Nil
  with strtok_scan_pieces [of s c] show ?thesis by simp
next
  case (Cons p ps)
  with strtok_scan_pieces [of s c] have "strtok_scan s [c] = (Some p, snd (strtok_scan s [c]))"
    by simp
  then have "fst (strtok_scan s [c]) = Some p" by (metis fst_conv)
  with Cons show ?thesis by simp
qed

lemma at_prefix_pieces:
  assumes "strncmp_eq r ''AT+REG'' 6"
  shows "\<exists>mc rest targetid ps.
           pieces CHR ''='' r = mc # rest \<and> pieces CHR ''+'' mc = ''AT'' # targetid # ps
           \<and> take 3 targetid = ''REG''"
proof -
  from assms have "take 6 r = ''AT+REG''" by (simp add: strncmp_eq_def)
  then have "r = ''AT+REG'' @ drop 6 r"
    using append_take_drop_id [of 6 r] by simp
  then obtain r' where r: "r = ''AT+REG'' @ r'" ..
  define m where "m = takeWhile (\<lambda>x. x \<noteq> CHR ''='') r'"
  have p1: "pieces CHR ''='' r =
      (''AT+REG'' @ m) # pieces CHR ''='' (drop 1 (dropWhile (\<lambda>x. x \<noteq> CHR ''='') r))"
    using pieces_first [of r "CHR ''=''"] by (simp add: r m_def)
  have p2: "pieces CHR ''+'' (''AT+REG'' @ m) = ''AT'' # pieces CHR ''+'' (''REG'' @ m)"
    using pieces_first [of "''AT+REG'' @ m" "CHR ''+''"] by simp
  have p3: "pieces CHR ''+'' (''REG'' @ m) =
      (''REG'' @ takeWhile (\<lambda>x. x \<noteq> CHR ''+'') m) #
        pieces CHR ''+'' (drop 1 (dropWhile (\<lambda>x. x \<noteq> CHR ''+'') (''REG'' @ m)))"
    using pieces_first [of "''REG'' @ m" "CHR ''+''"] by simp
  have "take 3 (''REG'' @ takeWhile (\<lambda>x. x \<noteq> CHR ''+'') m) = ''REG''" by simp
  with p1 p2 p3 show ?thesis by (metis (no_types, lifting))
qed

lemma process_atcommand_pieces:
  assumes "strncmp_eq r ''AT+REG'' 6"
    and "pieces CHR ''='' r = mc # rest" and "pieces CHR ''+'' mc = at # targetid # ps"
  shows "process_atcommand s r =
     (case rest of
        [] \<Rightarrow> read_command s targetid
      | tv # more_tokens \<Rightarrow>
          if tv = ''?'' then readbounds_command s targetid
          else bind_result (atoi (Some tv)) (write_command s targetid))"
proof -
  let ?r1 = "snd (strtok_scan r ''='')"
  let ?r2 = "snd (strtok_scan ?r1 ''='')"
  let ?r3 = "snd (strtok_scan mc ''+'')"
  have t1: "fst (strtok_scan r ''='') = Some mc"
    by (simp add: fst_strtok_scan assms(2))
  have r1: "pieces CHR ''='' ?r1 = rest"
    using strtok_scan_rest [of "CHR ''=''" r] assms(2) by simp
  have t2: "fst (strtok_scan ?r1 ''='') = (case rest of [] \<Rightarrow> None | tv # x \<Rightarrow> Some tv)"
    by (simp add: fst_strtok_scan r1)
  have r3: "pieces CHR ''+'' ?r3 = targetid # ps"
    using strtok_scan_rest [of "CHR ''+''" mc] assms(3) by simp
  have t4: "fst (strtok_scan ?r3 ''+'') = Some targetid"
    by (simp add: fst_strtok_scan r3)
  have w: "write_command s targetid =
     (\<lambda>requested_value.
        bind_result (replace_value requested_value targetid (regs s))
          (\<lambda>(value_swap_check, rs').
             if value_swap_check = - 2
             then Inr (s\<lparr>regs := rs'\<rparr>, ''INVALID REGISTER'' @ [CHR 0x0A], 1)
             else if value_swap_check = - 1
             then Inr (s\<lparr>regs := rs'\<rparr>, ''InvalidInput'' @ [CHR 0x0A], 2)
             else Inr (s\<lparr>regs := rs'\<rparr>, ''OK'' @ [CHR 0x0A], 0)))"
    by (rule ext) (simp only: write_command_def)
  have "process_atcommand s r =
     (case (case rest of [] \<Rightarrow> None | tv # x \<Rightarrow> Some tv) of
        None \<Rightarrow> read_command s targetid
      | Some tv \<Rightarrow>
          if tv = ''?'' then readbounds_command s targetid
          else bind_result (atoi (Some tv)) (write_command s targetid))"
    using assms(1)
    unfolding process_atcommand_def Let_def strtok_def read_command_def readbounds_command_def w
    by (simp only: option.case t1 t2 t4 if_True)
  then show ?thesis
    by (cases rest) simp_all
qed

lemma process_atcommand_code:
  assumes "strncmp_eq r ''AT+REG'' 6" and "process_atcommand s r = Inr (s', response, code)"
  shows "code \<noteq> 3"
proof -
  from at_prefix_pieces [OF assms(1)] obtain mc rest targetid ps where
    p: "pieces CHR ''='' r = mc # rest" "pieces CHR ''+'' mc = ''AT'' # targetid # ps"
    by blast
  note d = process_atcommand_pieces [OF assms(1) p, of s]
  show ?thesis
  proof (cases rest)
    case Nil
    with d assms(2) have "read_command s targetid = Inr (s', response, code)" by simp
    then show ?thesis by (rule read_command_code)
  next
    case (Cons tv x)
    show ?thesis
    proof (cases "tv = ''?''")
      case True
      with d Cons assms(2) have "readbounds_command s targetid = Inr (s', response, code)"
        by simp
      then show ?thesis by (rule readbounds_command_code)
    next
      case False
      with d Cons assms(2) obtain v where "write_command s targetid v = Inr (s', response, code)"
        by (auto simp: bind_result_def split: sum.splits)
      from write_command_code [OF this] show ?thesis by simp
    qed
  qed
qed

text \<open>
  C7 as stated: a request that matches no production is answered with
  \<^verbatim>\<open>INVALID AT-COMMAND\<close> and is not handled as any command. It fails for
  \<^verbatim>\<open>AT+REG1+junk\<close>, which is handled as the read of \<^verbatim>\<open>REG1\<close> and answered with its
  value, and for \<^verbatim>\<open>quitx\<close>, which ends the loop like \<^verbatim>\<open>quit\<close>.
\<close>

theorem outside_grammar_counterexample:
  "\<not> matches_grammar ''AT+REG1+junk''
   \<and> main_loop_body loop_entry ''AT+REG1+junk'' = Inr (loop_entry, ''0'' @ [CHR 0x0A], False)
   \<and> \<not> matches_grammar ''quitx''
   \<and> main_loop_body loop_entry ''quitx'' = Inr (loop_entry, ''TERMINATING'' @ [CHR 0x0A], True)"
  by code_simp

text \<open>
  C7, amended: a request that begins with none of \<^verbatim>\<open>insert\<close>, \<^verbatim>\<open>quit\<close> and \<^verbatim>\<open>AT+REG\<close>
  (such a request matches no production) is answered with \<^verbatim>\<open>INVALID AT-COMMAND\<close>, is not
  handled as any command and leaves the state as it is. A request that begins with one of
  the three is handled by its beginning alone, whatever follows. One that begins with
  \<^verbatim>\<open>insert\<close> is an insertion: of the number of its second piece with the bounds of its
  third piece between \<^verbatim>\<open>+\<close> when it has them, and when it is served the answer is
  \<^verbatim>\<open>INSERTION COMPLETE\<close> and a register has been appended. Otherwise one that begins
  with \<^verbatim>\<open>quit\<close> is answered with \<^verbatim>\<open>TERMINATING\<close> and ends the loop. Otherwise one that
  begins with \<^verbatim>\<open>AT+REG\<close> is a command on the register named by the second piece
  between \<^verbatim>\<open>+\<close> of the text before the first \<^verbatim>\<open>=\<close>: the read of its value with no token
  behind \<^verbatim>\<open>=\<close>, the read of its bounds with the token \<^verbatim>\<open>?\<close>, the write of the number
  of any other token; its return code is never that of an unrecognized command.
\<close>

theorem dispatch_on_prefix:
  "(\<not> strncmp_eq request ''insert'' 6 \<and> \<not> strncmp_eq request ''quit'' 4
      \<and> \<not> strncmp_eq request ''AT+REG'' 6 \<longrightarrow>
        process_atcommand s request = Inr (s, ''INVALID AT-COMMAND'' @ [CHR 0x0A], 3)
      \<and> main_loop_body s request = Inr (s, ''INVALID AT-COMMAND'' @ [CHR 0x0A], False)
      \<and> \<not> matches_grammar request)
   \<and> (strncmp_eq request ''insert'' 6 \<longrightarrow>
        main_loop_body s request
          = bind_result (process_insertion request s)
              (\<lambda>s'. Inr (s', ''INSERTION COMPLETE'' @ [CHR 0x0A], False))
      \<and> (\<forall>p1 p2 p3 ps. pieces CHR ''+'' request = p1 # p2 # p3 # ps \<longrightarrow>
            process_insertion request s
              = bind_result (atoi (Some p2)) (\<lambda>reg_value. add_register reg_value p3 s))
      \<and> (\<forall>s' response fin. main_loop_body s request = Inr (s', response, fin) \<longrightarrow>
            response = ''INSERTION COMPLETE'' @ [CHR 0x0A] \<and> \<not> fin
          \<and> (\<exists>v b. add_register v b s = Inr s')))
   \<and> (\<not> strncmp_eq request ''insert'' 6 \<and> strncmp_eq request ''quit'' 4 \<longrightarrow>
        main_loop_body s request = Inr (s, ''TERMINATING'' @ [CHR 0x0A], True))
   \<and> (\<not> strncmp_eq request ''insert'' 6 \<and> \<not> strncmp_eq request ''quit'' 4
      \<and> strncmp_eq request ''AT+REG'' 6 \<longrightarrow>
        main_loop_body s request
          = bind_result (process_atcommand s request)
              (\<lambda>(s', response, atcommand_res). Inr (s', response, False))
      \<and> (\<exists>mc rest targetid ps.
            pieces CHR ''='' request = mc # rest
          \<and> pieces CHR ''+'' mc = ''AT'' # targetid # ps \<and> take 3 targetid = ''REG''
          \<and> process_atcommand s request =
              (case rest of
                 [] \<Rightarrow> read_command s targetid
               | tv # more_tokens \<Rightarrow>
                   if tv = ''?'' then readbounds_command s targetid
                   else bind_result (atoi (Some tv)) (write_command s targetid)))
      \<and> (\<forall>s' response code. process_atcommand s request = Inr (s', response, code) \<longrightarrow>
            code \<noteq> 3))"
proof (intro conjI impI)
  assume a: "\<not> strncmp_eq request ''insert'' 6 \<and> \<not> strncmp_eq request ''quit'' 4
      \<and> \<not> strncmp_eq request ''AT+REG'' 6"
  show pa: "process_atcommand s request = Inr (s, ''INVALID AT-COMMAND'' @ [CHR 0x0A], 3)"
    using a by (simp add: process_atcommand_def)
  show "main_loop_body s request = Inr (s, ''INVALID AT-COMMAND'' @ [CHR 0x0A], False)"
    using a by (simp add: main_loop_body_def pa bind_result_def)
  have "\<not> quit_form request"
    using a by (auto simp: quit_form_def strncmp_eq_def)
  moreover have "\<not> insert_form request"
  proof
    assume "insert_form request"
    then have "take 7 request = ''insert+''" by (simp add: insert_form_def)
    then have "take 6 (take 7 request) = take 6 ''insert+''" by (rule arg_cong)
    then have "take 6 request = ''insert''" by simp
    with a show False by (simp add: strncmp_eq_def)
  qed
  moreover have "\<not> at_form request"
    using a by (auto simp: at_form_def strncmp_eq_def)
  ultimately show "\<not> matches_grammar request"
    by (simp add: matches_grammar_def)
next
  assume a: "strncmp_eq request ''insert'' 6"
  then show "main_loop_body s request
          = bind_result (process_insertion request s)
              (\<lambda>s'. Inr (s', ''INSERTION COMPLETE'' @ [CHR 0x0A], False))"
    by (simp add: main_loop_body_def)
  show "\<forall>p1 p2 p3 ps. pieces CHR ''+'' request = p1 # p2 # p3 # ps \<longrightarrow>
            process_insertion request s
              = bind_result (atoi (Some p2)) (\<lambda>reg_value. add_register reg_value p3 s)"
    by (intro allI impI) (rule process_insertion_pieces)
  show "\<forall>s' response fin. main_loop_body s request = Inr (s', response, fin) \<longrightarrow>
            response = ''INSERTION COMPLETE'' @ [CHR 0x0A] \<and> \<not> fin
          \<and> (\<exists>v b. add_register v b s = Inr s')"
  proof (intro allI impI)
    fix s' response fin
    assume "main_loop_body s request = Inr (s', response, fin)"
    from main_loop_body_cases [OF this] a
    show "response = ''INSERTION COMPLETE'' @ [CHR 0x0A] \<and> \<not> fin
          \<and> (\<exists>v b. add_register v b s = Inr s')"
      by blast
  qed
next
  assume "\<not> strncmp_eq request ''insert'' 6 \<and> strncmp_eq request ''quit'' 4"
  then show "main_loop_body s request = Inr (s, ''TERMINATING'' @ [CHR 0x0A], True)"
    by (simp add: main_loop_body_def)
next
  assume a: "\<not> strncmp_eq request ''insert'' 6 \<and> \<not> strncmp_eq request ''quit'' 4
      \<and> strncmp_eq request ''AT+REG'' 6"
  then have at: "strncmp_eq request ''AT+REG'' 6" by simp
  from a show "main_loop_body s request
          = bind_result (process_atcommand s request)
              (\<lambda>(s', response, atcommand_res). Inr (s', response, False))"
    by (simp add: main_loop_body_def)
  from at_prefix_pieces [OF at] obtain mc rest targetid ps where
    p: "pieces CHR ''='' request = mc # rest" "pieces CHR ''+'' mc = ''AT'' # targetid # ps"
    and t: "take 3 targetid = ''REG''"
    by blast
  from p t process_atcommand_pieces [OF at p, of s]
  show "\<exists>mc rest targetid ps.
            pieces CHR ''='' request = mc # rest
          \<and> pieces CHR ''+'' mc = ''AT'' # targetid # ps \<and> take 3 targetid = ''REG''
          \<and> process_atcommand s request =
              (case rest of
                 [] \<Rightarrow> read_command s targetid
               | tv # more_tokens \<Rightarrow>
                   if tv = ''?'' then readbounds_command s targetid
                   else bind_result (atoi (Some tv)) (write_command s targetid))"
    by (intro exI conjI)
  show "\<forall>s' response code. process_atcommand s request = Inr (s', response, code) \<longrightarrow>
            code \<noteq> 3"
    using process_atcommand_code [OF at] by blast
qed

theorem dispatch_on_prefix_witness:
  "main_loop_body loop_entry ''FOOBAR'' = Inr (loop_entry, ''INVALID AT-COMMAND'' @ [CHR 0x0A], False)
   \<and> main_loop_body loop_entry ''quitx'' = Inr (loop_entry, ''TERMINATING'' @ [CHR 0x0A], True)
   \<and> process_insertion ''insertfoo+5+0-3'' loop_entry
       = bind_result (atoi (Some ''5'')) (\<lambda>reg_value. add_register reg_value ''0-3'' loop_entry)
   \<and> main_loop_body loop_entry ''AT+REG1+junk''
       = bind_result (process_atcommand loop_entry ''AT+REG1+junk'')
           (\<lambda>(s', response, atcommand_res). Inr (s', response, False))"
proof -
  have h1: "\<not> strncmp_eq ''FOOBAR'' ''insert'' 6 \<and> \<not> strncmp_eq ''FOOBAR'' ''quit'' 4
      \<and> \<not> strncmp_eq ''FOOBAR'' ''AT+REG'' 6"
    by (simp add: strncmp_eq_def)
  have h2: "\<not> strncmp_eq ''quitx'' ''insert'' 6 \<and> strncmp_eq ''quitx'' ''quit'' 4"
    by (simp add: strncmp_eq_def)
  have h3: "strncmp_eq ''insertfoo+5+0-3'' ''insert'' 6"
    by (simp add: strncmp_eq_def)
  have p3: "pieces CHR ''+'' ''insertfoo+5+0-3'' = ''insertfoo'' # ''5'' # ''0-3'' # []"
    by code_simp
  have h4: "\<not> strncmp_eq ''AT+REG1+junk'' ''insert'' 6 \<and> \<not> strncmp_eq ''AT+REG1+junk'' ''quit'' 4
      \<and> strncmp_eq ''AT+REG1+junk'' ''AT+REG'' 6"
    by (simp add: strncmp_eq_def)
  note a = dispatch_on_prefix [of "''FOOBAR''" loop_entry, THEN conjunct1, rule_format, OF h1,
      THEN conjunct2, THEN conjunct1]
  note b = dispatch_on_prefix [of "''quitx''" loop_entry,
      THEN conjunct2, THEN conjunct2, THEN conjunct1, rule_format, OF h2]
  note c = dispatch_on_prefix [of "''insertfoo+5+0-3''" loop_entry,
      THEN conjunct2, THEN conjunct1, rule_format, OF h3,
      THEN conjunct2, THEN conjunct1, rule_format, OF p3]
  note d = dispatch_on_prefix [of "''AT+REG1+junk''" loop_entry,
      THEN conjunct2, THEN conjunct2, THEN conjunct2, rule_format, OF h4, THEN conjunct1]
  from a b c d show ?thesis
    by (intro conjI)
qed

end
